theory Spec2Isabelle
  imports Complex_Main "HOL-Library.Multiset"
begin

section \<open>Values shared by the whole module\<close>

text \<open>
  The module \<^verbatim>\<open>utils/gmm_cv.py\<close> raises through the libraries it calls. Every
  raise is a value of \<open>error\<close>; a function that can raise returns \<open>error + 'a\<close>.
\<close>

datatype error = ValueError | AttributeError | IndexError | KeyError

text \<open>
  A Python float as far as comparison sees it: a finite number, one of the two
  infinities, or not-a-number. \<open>flt\<close> is Python's \<^verbatim>\<open><\<close> on floats: every comparison
  with not-a-number is false.
\<close>

datatype pyfloat = NegInf | Fin real | PosInf | NaN

fun flt :: "pyfloat \<Rightarrow> pyfloat \<Rightarrow> bool" where
  "flt NaN y = False"
| "flt NegInf NegInf = False"
| "flt NegInf NaN = False"
| "flt NegInf y = True"
| "flt (Fin a) (Fin b) = (a < b)"
| "flt (Fin a) PosInf = True"
| "flt (Fin a) y = False"
| "flt PosInf y = False"

type_synonym coords = "(real \<times> real) list"

text \<open>
  The mixture library (\<^verbatim>\<open>sklearn.mixture.GaussianMixture\<close>) is outside the module. It
  is a parameter: \<open>fit nc X\<close> is \<^verbatim>\<open>GaussianMixture(n_components=nc,
  covariance_type="full").fit(X)\<close>, \<open>bic g X\<close> is \<^verbatim>\<open>g.bic(X)\<close> and \<open>score_samples g X\<close>
  is the per-sample log-likelihood \<^verbatim>\<open>g.score_samples(X)\<close>. Each may raise. A BIC is
  any float; a log-likelihood is taken to be a number.
\<close>

record 'm mixture_lib =
  fit :: "int \<Rightarrow> coords \<Rightarrow> error + 'm"
  bic :: "'m \<Rightarrow> coords \<Rightarrow> error + pyfloat"
  score_samples :: "'m \<Rightarrow> coords \<Rightarrow> error + real list"

text \<open>
  \<^verbatim>\<open>GaussianMixture.score(X)\<close> is the mean of \<^verbatim>\<open>score_samples(X)\<close>: one float for the
  whole of \<open>X\<close>. The library refuses an array with no sample.
\<close>

definition gmm_score :: "'m mixture_lib \<Rightarrow> 'm \<Rightarrow> coords \<Rightarrow> error + real" where
  "gmm_score L g X =
     (case score_samples L g X of
        Inl e \<Rightarrow> Inl e
      | Inr ls \<Rightarrow> if ls = [] then Inl ValueError
                 else Inr (sum_list ls / real (length ls)))"

section \<open>nb_clust_with_bic\<close>

text \<open>
  The source's \<^verbatim>\<open>nb_clust_with_bic_\<close>; a name of a constant cannot end with an underscore
  here, and for the same reason the frame \<^verbatim>\<open>data_\<close> of the source is written \<open>data'\<close>.
\<close>

text \<open>
  The triple \<^verbatim>\<open>[nc, bic, gmm]\<close>. The third component of the initial triple is the
  empty list \<^verbatim>\<open>[]\<close>, a placeholder that is no model: \<open>None\<close>.
\<close>

type_synonym 'm nc_bic = "int \<times> pyfloat \<times> 'm option"

text \<open>
  \<^verbatim>\<open>min([a, b], key=lambda x: x[1])\<close>: Python's \<^verbatim>\<open>min\<close> keeps the first element unless
  a later one has a strictly smaller key.
\<close>

definition min_by_bic :: "'m nc_bic \<Rightarrow> 'm nc_bic \<Rightarrow> 'm nc_bic" where
  "min_by_bic a b = (if flt (fst (snd b)) (fst (snd a)) then b else a)"

text \<open>The body of the \<^verbatim>\<open>for nc in range(min_nc, max_ncf)\<close> loop, one candidate at a time.\<close>

fun bic_loop :: "'m mixture_lib \<Rightarrow> coords \<Rightarrow> int list \<Rightarrow> 'm nc_bic \<Rightarrow> error + 'm nc_bic" where
  "bic_loop L coord_tc [] nc_bic = Inr nc_bic"
| "bic_loop L coord_tc (nc # ncs) nc_bic =
     (case fit L nc coord_tc of
        Inl e \<Rightarrow> Inl e
      | Inr gmm \<Rightarrow>
          (case bic L gmm coord_tc of
             Inl e \<Rightarrow> Inl e
           | Inr b \<Rightarrow> bic_loop L coord_tc ncs (min_by_bic nc_bic (nc, b, Some gmm))))"

text \<open>\<^verbatim>\<open>range(a, b)\<close> over Python integers.\<close>

definition py_range :: "int \<Rightarrow> int \<Rightarrow> int list" where
  "py_range a b = [a..b - 1]"

definition nb_clust_with_bic :: "'m mixture_lib \<Rightarrow> coords \<Rightarrow> int \<Rightarrow> int \<Rightarrow> error + 'm nc_bic" where
  "nb_clust_with_bic L coord_tc min_nc max_nc =
     (let max_ncf = min max_nc (int (length coord_tc))
      in bic_loop L coord_tc (py_range min_nc max_ncf) (- 1, PosInf, None))"

text \<open>The BIC of candidate \<open>nc\<close>, as the loop body computes it.\<close>

definition cand_bic :: "'m mixture_lib \<Rightarrow> coords \<Rightarrow> int \<Rightarrow> error + pyfloat" where
  "cand_bic L coord_tc nc =
     (case fit L nc coord_tc of Inl e \<Rightarrow> Inl e | Inr gmm \<Rightarrow> bic L gmm coord_tc)"

section \<open>Tables\<close>

text \<open>
  A row of the input table \<^verbatim>\<open>data_original\<close>: its label in the DataFrame's index and the
  three columns the module reads. The identifier of the trajectory is an integer.
\<close>

record point =
  idx :: int
  lons :: real
  lats :: real
  id_traj :: int

text \<open>
  The columns the module adds are named \<^verbatim>\<open>"cv"\<close> and \<^verbatim>\<open>"score_" + str(n)\<close>: the
  constructors \<open>Cv\<close> and \<open>Score n\<close> (like \<^verbatim>\<open>str\<close>, \<open>Score\<close> gives different names to
  different numbers). A cell is a float, or \<open>None\<close> for the missing value (NaN).
\<close>

datatype colname = Cv | Score nat

type_synonym cell = "real option"

text \<open>
  A DataFrame without the input columns: its index and its columns in order, each a name
  with one cell per row.
\<close>

record frame =
  index :: "int list"
  columns :: "(colname \<times> cell list) list"

text \<open>The input table extended by such columns (the result of \<^verbatim>\<open>join\<close>).\<close>

record table =
  rows :: "point list"
  extra :: "(colname \<times> cell list) list"

text \<open>
  \<^verbatim>\<open>d[k] = v\<close> on an ordered dictionary, and so on the columns of a DataFrame: the value
  of an existing key is replaced in place, a new key is appended.
\<close>

fun assign :: "'k \<Rightarrow> 'v \<Rightarrow> ('k \<times> 'v) list \<Rightarrow> ('k \<times> 'v) list" where
  "assign k v [] = [(k, v)]"
| "assign k v (p # ps) = (if fst p = k then (k, v) # ps else p # assign k v ps)"

text \<open>\<^verbatim>\<open>frame[name] = scalar\<close>: the scalar is broadcast over the rows.\<close>

definition set_column :: "colname \<Rightarrow> cell \<Rightarrow> frame \<Rightarrow> frame" where
  "set_column name v f = f\<lparr>columns := assign name (replicate (length (index f)) v) (columns f)\<rparr>"

text \<open>\<^verbatim>\<open>series.isin(values)\<close> and the selection of rows by a boolean mask.\<close>

definition isin :: "int list \<Rightarrow> int list \<Rightarrow> bool list" where
  "isin col vals = map (\<lambda>v. v \<in> set vals) col"

definition mask :: "'a list \<Rightarrow> bool list \<Rightarrow> 'a list" where
  "mask xs bs = map fst (filter snd (zip xs bs))"

section \<open>train_test_split\<close>

definition data_test_bool :: "point list \<Rightarrow> int list \<Rightarrow> bool list" where
  "data_test_bool data_original cv_index_i = isin (map id_traj data_original) cv_index_i"

definition data_train :: "point list \<Rightarrow> int list \<Rightarrow> point list" where
  "data_train data_original cv_index_i =
     mask data_original (map Not (data_test_bool data_original cv_index_i))"

definition data_test :: "point list \<Rightarrow> int list \<Rightarrow> point list" where
  "data_test data_original cv_index_i =
     mask data_original (data_test_bool data_original cv_index_i)"

text \<open>
  The rows of \<^verbatim>\<open>traj_coord_train\<close> are \<^verbatim>\<open>(lons, lats, id_traj)\<close>, those of
  \<^verbatim>\<open>traj_coord_test\<close> are \<^verbatim>\<open>(lons, lats)\<close>; \<^verbatim>\<open>data_\<close> is the frame on the index of the test
  rows with the column \<^verbatim>\<open>"cv"\<close> set to \<open>i\<close>.
\<close>

definition train_test_split ::
  "point list \<Rightarrow> int list \<Rightarrow> nat \<Rightarrow> (real \<times> real \<times> int) list \<times> coords \<times> frame" where
  "train_test_split data_original cv_index_i i =
     (let traj_coord_train =
            map (\<lambda>p. (lons p, lats p, id_traj p)) (data_train data_original cv_index_i);
          traj_coord_test = map (\<lambda>p. (lons p, lats p)) (data_test data_original cv_index_i);
          index_test = map idx (data_test data_original cv_index_i);
          data' = set_column Cv (Some (real i)) \<lparr>index = index_test, columns = []\<rparr>
      in (traj_coord_train, traj_coord_test, data'))"

section \<open>build_cross_clust_mixt_cv\<close>

text \<open>\<^verbatim>\<open>np.where(labels == n_class)[0]\<close>: the positions of \<open>labels\<close> that hold the class.\<close>

definition np_where_eq :: "int list \<Rightarrow> int \<Rightarrow> nat list" where
  "np_where_eq labels n_class = filter (\<lambda>j. labels ! j = n_class) [0..<length labels]"

text \<open>
  \<^verbatim>\<open>traj_coord_train[np.isin(traj_coord_train[:, -1], id_traj_class_n)][:,:-1]\<close>: the
  coordinates of the training rows whose trajectory identifier is one of the positions.
\<close>

definition class_coords :: "(real \<times> real \<times> int) list \<Rightarrow> nat list \<Rightarrow> coords" where
  "class_coords traj_coord_train id_traj_class_n =
     map (\<lambda>r. (fst r, fst (snd r)))
       (mask traj_coord_train
          (map (\<lambda>r. snd (snd r) \<in> set (map int id_traj_class_n)) traj_coord_train))"

text \<open>
  Above 10000 rows the source keeps the rows at 10000 positions drawn by
  \<^verbatim>\<open>np.random.choice(n, size=10000, replace=False)\<close>. The draw is a parameter: \<open>draw n\<close> is
  the list of positions drawn from \<open>n\<close>. A position outside the array raises.
\<close>

definition subsample :: "(nat \<Rightarrow> nat list) \<Rightarrow> coords \<Rightarrow> error + coords" where
  "subsample draw coord_tc =
     (let n_ind = length coord_tc
      in if n_ind > 10000
         then (if \<forall>j\<in>set (draw n_ind). j < n_ind
               then Inr (map (\<lambda>j. coord_tc ! j) (draw n_ind))
               else Inl IndexError)
         else Inr coord_tc)"

text \<open>
  The loop \<^verbatim>\<open>for n_class in range(nb_traj_class)\<close> of one fold. Its state is the
  dictionary \<^verbatim>\<open>gmm_per_traj_clust\<close> and the frame \<^verbatim>\<open>data_\<close>. The model selection is called
  with its default bounds 2 and 20. \<^verbatim>\<open>gmm.score\<close> on the placeholder \<^verbatim>\<open>[]\<close> raises
  AttributeError; on a model it is one float, which the assignment to the column
  broadcasts over the rows of \<^verbatim>\<open>data_\<close>.
\<close>

fun class_loop ::
  "'m mixture_lib \<Rightarrow> (nat \<Rightarrow> nat \<Rightarrow> nat list) \<Rightarrow> int list \<Rightarrow> (real \<times> real \<times> int) list \<Rightarrow> coords
     \<Rightarrow> nat list \<Rightarrow> (nat \<times> 'm option) list \<times> frame
     \<Rightarrow> error + (nat \<times> 'm option) list \<times> frame" where
  "class_loop L draw labels traj_coord_train traj_coord_test [] st = Inr st"
| "class_loop L draw labels traj_coord_train traj_coord_test (n_class # rest) st =
     (let id_traj_class_n = np_where_eq labels (int n_class)
      in case subsample (draw n_class) (class_coords traj_coord_train id_traj_class_n) of
           Inl e \<Rightarrow> Inl e
         | Inr coord_tc \<Rightarrow>
             (case nb_clust_with_bic L coord_tc 2 20 of
                Inl e \<Rightarrow> Inl e
              | Inr nc_bic \<Rightarrow>
                  (case snd (snd nc_bic) of
                     None \<Rightarrow> Inl AttributeError
                   | Some gmm \<Rightarrow>
                       (case gmm_score L gmm traj_coord_test of
                          Inl e \<Rightarrow> Inl e
                        | Inr scores \<Rightarrow>
                            class_loop L draw labels traj_coord_train traj_coord_test rest
                              (assign n_class (Some gmm) (fst st),
                               set_column (Score n_class) (Some scores) (snd st))))))"

text \<open>
  The loop \<^verbatim>\<open>for i, cv_index_i in enumerate(cv_list)\<close>. Its state is the pair of the lists
  \<^verbatim>\<open>gmm_cv\<close> and \<^verbatim>\<open>data_list\<close>. \<open>draw i n_class\<close> is the draw of fold \<open>i\<close> for class
  \<open>n_class\<close>.
\<close>

fun cv_loop ::
  "'m mixture_lib \<Rightarrow> (nat \<Rightarrow> nat \<Rightarrow> nat \<Rightarrow> nat list) \<Rightarrow> point list \<Rightarrow> nat \<Rightarrow> int list
     \<Rightarrow> (nat \<times> int list) list \<Rightarrow> (nat \<times> 'm option) list list \<times> frame list
     \<Rightarrow> error + (nat \<times> 'm option) list list \<times> frame list" where
  "cv_loop L draw data_original nb_traj_class labels [] st = Inr st"
| "cv_loop L draw data_original nb_traj_class labels (ic # rest) st =
     (case train_test_split data_original (snd ic) (fst ic) of
        (traj_coord_train, traj_coord_test, data') \<Rightarrow>
          (case class_loop L (draw (fst ic)) labels traj_coord_train traj_coord_test
                  [0..<nb_traj_class] ([], data') of
             Inl e \<Rightarrow> Inl e
           | Inr (gmm_per_traj_clust, data') \<Rightarrow>
               cv_loop L draw data_original nb_traj_class labels rest
                 (fst st @ [gmm_per_traj_clust], snd st @ [data'])))"

text \<open>
  \<^verbatim>\<open>pd.concat(frames)\<close>: no frame at all raises; otherwise the indexes are appended and
  every column name of some frame becomes a column, with missing values for the rows of
  a frame that has no such column.
\<close>

definition column_or_nan :: "frame \<Rightarrow> colname \<Rightarrow> cell list" where
  "column_or_nan f name =
     (case map_of (columns f) name of
        Some col \<Rightarrow> col
      | None \<Rightarrow> replicate (length (index f)) None)"

definition pd_concat :: "frame list \<Rightarrow> error + frame" where
  "pd_concat fs =
     (if fs = [] then Inl ValueError
      else Inr \<lparr>index = concat (map index fs),
                columns = map (\<lambda>name. (name, concat (map (\<lambda>f. column_or_nan f name) fs)))
                            (rev (remdups (rev (concat (map (\<lambda>f. map fst (columns f)) fs)))))\<rparr>)"

text \<open>
  \<^verbatim>\<open>frame.reindex(target)\<close>: the frame itself when its index is the target already; an
  index with a repeated label cannot be reindexed; otherwise each label of the target
  takes the row of that label, or missing values when the frame has no such label.
\<close>

fun pos_of :: "int \<Rightarrow> int list \<Rightarrow> nat option" where
  "pos_of l [] = None"
| "pos_of l (x # xs) = (if x = l then Some 0 else map_option Suc (pos_of l xs))"

definition take_cell :: "cell list \<Rightarrow> nat option \<Rightarrow> cell" where
  "take_cell col p = (case p of None \<Rightarrow> None | Some j \<Rightarrow> col ! j)"

definition reindex :: "frame \<Rightarrow> int list \<Rightarrow> error + frame" where
  "reindex f target =
     (if index f = target then Inr f
      else if \<not> distinct (index f) then Inl ValueError
      else Inr \<lparr>index = target,
                columns = map (\<lambda>nc. (fst nc, map (\<lambda>l. take_cell (snd nc) (pos_of l (index f))) target))
                            (columns f)\<rparr>)"

text \<open>
  \<^verbatim>\<open>left.join(right)\<close>, a left join on the index: the rows of the left table in their
  order, each with the right rows of its label (missing values when there is none).
\<close>

definition positions :: "int \<Rightarrow> int list \<Rightarrow> nat list" where
  "positions l ls = filter (\<lambda>j. ls ! j = l) [0..<length ls]"

definition join_pairs :: "point list \<Rightarrow> int list \<Rightarrow> (point \<times> nat option) list" where
  "join_pairs left right_index =
     concat (map (\<lambda>p. case positions (idx p) right_index of
                         [] \<Rightarrow> [(p, None)]
                       | j # js \<Rightarrow> map (\<lambda>j. (p, Some j)) (j # js)) left)"

definition join :: "point list \<Rightarrow> frame \<Rightarrow> table" where
  "join left right =
     (let pairs = join_pairs left (index right)
      in \<lparr>rows = map fst pairs,
          extra = map (\<lambda>nc. (fst nc, map (\<lambda>pj. take_cell (snd nc) (snd pj)) pairs)) (columns right)\<rparr>)"

definition build_cross_clust_mixt_cv ::
  "'m mixture_lib \<Rightarrow> (nat \<Rightarrow> nat \<Rightarrow> nat \<Rightarrow> nat list) \<Rightarrow> point list \<Rightarrow> int list list \<Rightarrow> nat \<Rightarrow> int list
     \<Rightarrow> error + (nat \<times> 'm option) list list \<times> table" where
  "build_cross_clust_mixt_cv L draw data_original cv_list nb_traj_class labels =
     (case cv_loop L draw data_original nb_traj_class labels (enumerate 0 cv_list) ([], []) of
        Inl e \<Rightarrow> Inl e
      | Inr (gmm_cv, data_list) \<Rightarrow>
          (case pd_concat data_list of
             Inl e \<Rightarrow> Inl e
           | Inr whole \<Rightarrow>
               (case reindex whole (map idx data_original) of
                  Inl e \<Rightarrow> Inl e
                | Inr aligned \<Rightarrow> Inr (gmm_cv, join data_original aligned))))"

section \<open>Well-formed frames\<close>

text \<open>
  In a DataFrame every column has one cell per label of the index. The frame a fold
  hands over has, on the index of its test rows, the column \<open>cv\<close> equal to the fold
  number and one column \<open>Score c\<close> per class, each one value repeated on every row.
\<close>

definition wf_frame :: "frame \<Rightarrow> bool" where
  "wf_frame f = list_all (\<lambda>nc. length (snd nc) = length (index f)) (columns f)"

definition fold_frame :: "point list \<Rightarrow> nat \<Rightarrow> nat \<times> int list \<Rightarrow> frame \<Rightarrow> bool" where
  "fold_frame data nb ic f =
     (index f = map idx (filter (\<lambda>p. id_traj p \<in> set (snd ic)) data)
      \<and> wf_frame f
      \<and> map_of (columns f) Cv = Some (replicate (length (index f)) (Some (real (fst ic))))
      \<and> list_all (\<lambda>c. \<exists>s. map_of (columns f) (Score c)
                             = Some (replicate (length (index f)) (Some s))) [0..<nb])"

section \<open>create_cumsum_data\<close>

text \<open>\<^verbatim>\<open>c.startswith("score_")\<close> on the names of the added columns.\<close>

fun is_score :: "colname \<Rightarrow> bool" where
  "is_score (Score n) = True"
| "is_score Cv = False"

text \<open>
  \<^verbatim>\<open>t.cumsum()\<close> on one column, with pandas' default \<^verbatim>\<open>skipna=True\<close>: a missing cell
  stays missing and adds nothing to the running sum.
\<close>

fun cumsum_from :: "real \<Rightarrow> cell list \<Rightarrow> cell list" where
  "cumsum_from acc [] = []"
| "cumsum_from acc (None # cs) = None # cumsum_from acc cs"
| "cumsum_from acc (Some v # cs) = Some (acc + v) # cumsum_from (acc + v) cs"

definition cumsum :: "cell list \<Rightarrow> cell list" where
  "cumsum cs = cumsum_from 0 cs"

text \<open>
  \<^verbatim>\<open>groupby(key)\<close>: the groups are taken in the ascending order of their keys, and a
  group is the rows that hold its key, in the order of the table.
\<close>

definition group_keys :: "int list \<Rightarrow> int list" where
  "group_keys ids = sort (remdups ids)"

definition group_positions :: "'k list \<Rightarrow> 'k \<Rightarrow> nat list" where
  "group_positions ids k = filter (\<lambda>j. ids ! j = k) [0..<length ids]"

definition take_rows :: "'a list \<Rightarrow> nat list \<Rightarrow> 'a list" where
  "take_rows xs js = map (\<lambda>j. xs ! j) js"

text \<open>
  \<^verbatim>\<open>lambda t: t.cumsum()\<close> on the group of key \<open>k\<close>: the frame \<open>t\<close> holds the score
  columns of the rows of the group, on their index labels.
\<close>

definition cumsum_group :: "table \<Rightarrow> int \<Rightarrow> frame" where
  "cumsum_group data k =
     (let scores_columns = filter (\<lambda>nc. is_score (fst nc)) (extra data);
          group = group_positions (map id_traj (rows data)) k
      in \<lparr>index = take_rows (map idx (rows data)) group,
          columns = map (\<lambda>nc. (fst nc, cumsum (take_rows (snd nc) group))) scores_columns\<rparr>)"

text \<open>
  \<^verbatim>\<open>frame.take(js)\<close>, the rows at the positions \<open>js\<close>, and \<^verbatim>\<open>unique1d\<close>, which keeps
  the first occurrence of each position.
\<close>

definition take_frame :: "frame \<Rightarrow> nat list \<Rightarrow> frame" where
  "take_frame f js =
     \<lparr>index = take_rows (index f) js,
      columns = map (\<lambda>nc. (fst nc, take_rows (snd nc) js)) (columns f)\<rparr>"

definition unique1d :: "nat list \<Rightarrow> nat list" where
  "unique1d js = rev (remdups (rev js))"

text \<open>
  \<^verbatim>\<open>data.groupby("id_traj")[scores_columns].apply(lambda t: t.cumsum())\<close>, as pandas
  before 2.0 evaluates it. The results of the groups
  are concatenated in the order of the groups and, each result having the index of its
  group, the whole is brought back to the index \<open>ax\<close> of \<open>data\<close>: by \<^verbatim>\<open>reindex\<close>, or,
  when \<open>ax\<close> repeats a label and the concatenation has another index, by taking for
  each label of \<open>ax\<close> the rows of the concatenation that bear it, each row once. A
  table with no row has no group and gives a frame with no row that keeps the score
  columns.
\<close>

definition create_cumsum_data :: "table \<Rightarrow> error + frame" where
  "create_cumsum_data data =
     (let scores_columns = filter (\<lambda>nc. is_score (fst nc)) (extra data);
          ax = map idx (rows data);
          applied = map (cumsum_group data) (group_keys (map id_traj (rows data)))
      in if applied = []
         then Inr \<lparr>index = [], columns = map (\<lambda>nc. (fst nc, [])) scores_columns\<rparr>
         else (case pd_concat applied of
                 Inl e \<Rightarrow> Inl e
               | Inr whole \<Rightarrow>
                   if \<not> distinct ax \<and> index whole \<noteq> ax
                   then Inr (take_frame whole
                               (unique1d (concat (map (\<lambda>l. positions l (index whole)) ax))))
                   else reindex whole ax))"

section \<open>create_roc_dict\<close>


text \<open>
  \<^verbatim>\<open>groupby("id_traj").last()\<close>: one row per trajectory identifier, in ascending order
  (rows without identifier are dropped), holding for each column the last cell of the
  group that is not missing.
\<close>

fun last_valid :: "cell list \<Rightarrow> cell" where
  "last_valid [] = None"
| "last_valid (c # cs) = (case last_valid cs of Some v \<Rightarrow> Some v | None \<Rightarrow> c)"

definition present_ids :: "int option list \<Rightarrow> int list" where
  "present_ids ids = concat (map (\<lambda>i. case i of None \<Rightarrow> [] | Some k \<Rightarrow> [k]) ids)"

definition groupby_last :: "int option list \<Rightarrow> frame \<Rightarrow> frame" where
  "groupby_last ids f =
     (let keys = group_keys (present_ids ids)
      in \<lparr>index = keys,
          columns = map (\<lambda>nc. (fst nc, map (\<lambda>k. last_valid (take_rows (snd nc)
                                                   (group_positions ids (Some k)))) keys))
                      (columns f)\<rparr>)"







section \<open>The running sum, in the words of the specification\<close>

text \<open>
  The sum of the scores of the rows up to row \<open>j\<close> that belong to the trajectory of row
  \<open>j\<close>, and the sum of all the scores of trajectory \<open>k\<close>; a missing score counts for
  nothing.
\<close>

definition present :: "cell \<Rightarrow> real" where
  "present c = (case c of None \<Rightarrow> 0 | Some v \<Rightarrow> v)"

definition running_sum :: "int list \<Rightarrow> cell list \<Rightarrow> nat \<Rightarrow> real" where
  "running_sum ids col j =
     (\<Sum>i\<leftarrow>filter (\<lambda>i. ids ! i = ids ! j) [0..<Suc j]. present (col ! i))"

definition full_sum :: "int list \<Rightarrow> cell list \<Rightarrow> int \<Rightarrow> real" where
  "full_sum ids col k =
     (\<Sum>i\<leftarrow>filter (\<lambda>i. ids ! i = k) [0..<length ids]. present (col ! i))"

definition wf_table :: "table \<Rightarrow> bool" where
  "wf_table t = list_all (\<lambda>nc. length (snd nc) = length (rows t)) (extra t)"

definition demo_lib :: "(int \<Rightarrow> pyfloat) \<Rightarrow> int mixture_lib" where
  "demo_lib f =
     \<lparr> fit = (\<lambda>nc X. if 1 \<le> nc \<and> nc \<le> int (length X) then Inr nc else Inl ValueError),
       bic = (\<lambda>g X. Inr (f g)),
       score_samples = (\<lambda>g X. Inr (map (\<lambda>p. fst p * real_of_int g) X)) \<rparr>"

definition five_points :: coords where
  "five_points = [(0, 0), (1, 0), (0, 1), (1, 1), (2, 2)]"

text \<open>A small input table: two trajectories of three points each, labelled 10 to 15.\<close>

definition demo_data :: "point list" where
  "demo_data =
     [\<lparr>idx = 10, lons = 0, lats = 0, id_traj = 0\<rparr>,
      \<lparr>idx = 11, lons = 1, lats = 0, id_traj = 0\<rparr>,
      \<lparr>idx = 12, lons = 2, lats = 0, id_traj = 0\<rparr>,
      \<lparr>idx = 13, lons = 1, lats = 0, id_traj = 1\<rparr>,
      \<lparr>idx = 14, lons = 3, lats = 0, id_traj = 1\<rparr>,
      \<lparr>idx = 15, lons = 5, lats = 0, id_traj = 1\<rparr>]"

text \<open>No draw is ever needed on a table this small.\<close>

definition no_draw :: "nat \<Rightarrow> nat \<Rightarrow> nat \<Rightarrow> nat list" where
  "no_draw i n_class n = []"

text \<open>
  A score table of two trajectories: trajectory 0 on the rows 0, 2 and 3 with the
  scores 1, 2 and 4, trajectory 1 on row 1 with the score 10.
\<close>

definition demo_scores :: table where
  "demo_scores =
     \<lparr>rows = [\<lparr>idx = 0, lons = 0, lats = 0, id_traj = 0\<rparr>,
              \<lparr>idx = 1, lons = 0, lats = 0, id_traj = 1\<rparr>,
              \<lparr>idx = 2, lons = 0, lats = 0, id_traj = 0\<rparr>,
              \<lparr>idx = 3, lons = 0, lats = 0, id_traj = 0\<rparr>],
      extra = [(Cv, [Some 0, Some 1, Some 0, Some 0]),
               (Score 0, [Some 1, Some 10, Some 2, Some 4])]\<rparr>"




text \<open>
  A score table whose index repeats the label 0, on rows of two trajectories.
\<close>

definition demo_repeated :: table where
  "demo_repeated =
     \<lparr>rows = [\<lparr>idx = 0, lons = 0, lats = 0, id_traj = 1\<rparr>,
              \<lparr>idx = 1, lons = 0, lats = 0, id_traj = 0\<rparr>,
              \<lparr>idx = 0, lons = 0, lats = 0, id_traj = 0\<rparr>],
      extra = [(Score 0, [Some 1, Some 2, Some 4])]\<rparr>"

section \<open>Model selection: the candidate loop\<close>

lemma flt_irrefl: "\<not> flt a a" by (cases a) auto
lemma flt_trans: "flt a b \<Longrightarrow> flt b c \<Longrightarrow> flt a c"
  by (cases a; cases b; cases c) auto
lemma flt_antisym_eq: "flt a PosInf \<Longrightarrow> flt b PosInf \<Longrightarrow> \<not> flt a b \<Longrightarrow> \<not> flt b a \<Longrightarrow> a = b"
  by (cases a; cases b) auto

lemma flt_neg_trans: "b \<noteq> NaN \<Longrightarrow> \<not> flt a b \<Longrightarrow> \<not> flt b c \<Longrightarrow> \<not> flt a c"
  by (cases a; cases b; cases c) auto

lemma flt_not_NaN: "flt a b \<Longrightarrow> a \<noteq> NaN"
  by (cases a) auto

lemma bic_loop_min:
  "bic_loop L X ks best = Inr r \<Longrightarrow> fst (snd best) \<noteq> NaN \<Longrightarrow>
     \<not> flt (fst (snd best)) (fst (snd r)) \<and>
     (\<forall>k\<in>set ks. \<exists>b. cand_bic L X k = Inr b \<and> \<not> flt b (fst (snd r)))"
proof (induction ks arbitrary: best)
  case Nil
  then show ?case by (simp add: flt_irrefl)
next
  case (Cons k ks)
  from Cons.prems obtain g b where
    g: "fit L k X = Inr g" and b: "bic L g X = Inr b"
    and rest: "bic_loop L X ks (min_by_bic best (k, b, Some g)) = Inr r"
    by (auto split: sum.splits)
  let ?best' = "min_by_bic best (k, b, Some g)"
  have nn: "fst (snd ?best') \<noteq> NaN"
    using Cons.prems(2) by (auto simp: min_by_bic_def dest: flt_not_NaN)
  from Cons.IH [OF rest nn] have
    ih1: "\<not> flt (fst (snd ?best')) (fst (snd r))" and
    ih2: "\<forall>j\<in>set ks. \<exists>b. cand_bic L X j = Inr b \<and> \<not> flt b (fst (snd r))"
    by blast+
  have kb: "cand_bic L X k = Inr b" by (simp add: cand_bic_def g b)
  have "\<not> flt (fst (snd best)) (fst (snd r)) \<and> \<not> flt b (fst (snd r))"
    using ih1 Cons.prems(2)
    by (auto simp: min_by_bic_def flt_irrefl split: if_splits dest: flt_trans flt_neg_trans)
  with ih2 kb show ?case by auto
qed

lemma bic_loop_first:
  "bic_loop L X ks best = Inr r \<Longrightarrow>
     (r = best \<and> (\<forall>k\<in>set ks. \<exists>b. cand_bic L X k = Inr b \<and> \<not> flt b (fst (snd best))))
   \<or> (\<exists>ks1 ks2 g. ks = ks1 @ fst r # ks2 \<and> fit L (fst r) X = Inr g \<and>
         bic L g X = Inr (fst (snd r)) \<and> snd (snd r) = Some g \<and>
         flt (fst (snd r)) (fst (snd best)) \<and>
         (\<forall>j\<in>set ks1. cand_bic L X j \<noteq> Inr (fst (snd r))))"
proof (induction ks arbitrary: best)
  case Nil
  then show ?case by simp
next
  case (Cons k ks)
  from Cons.prems obtain g b where
    g: "fit L k X = Inr g" and b: "bic L g X = Inr b"
    and rest: "bic_loop L X ks (min_by_bic best (k, b, Some g)) = Inr r"
    by (auto split: sum.splits)
  let ?best' = "min_by_bic best (k, b, Some g)"
  have kb: "cand_bic L X k = Inr b" by (simp add: cand_bic_def g b)
  from Cons.IH [OF rest] consider
    (keep) "r = ?best'" "\<forall>j\<in>set ks. \<exists>b. cand_bic L X j = Inr b \<and> \<not> flt b (fst (snd ?best'))"
  | (later) ks1 ks2 g' where "ks = ks1 @ fst r # ks2" "fit L (fst r) X = Inr g'"
      "bic L g' X = Inr (fst (snd r))" "snd (snd r) = Some g'"
      "flt (fst (snd r)) (fst (snd ?best'))"
      "\<forall>j\<in>set ks1. cand_bic L X j \<noteq> Inr (fst (snd r))"
    by blast
  then show ?case
  proof cases
    case keep
    show ?thesis
    proof (cases "flt b (fst (snd best))")
      case True
      then have r: "r = (k, b, Some g)" using keep(1) by (simp add: min_by_bic_def)
      have "k # ks = [] @ fst r # ks" by (simp add: r)
      then show ?thesis using r g b True by fastforce
    next
      case False
      then have r: "r = best" using keep(1) by (simp add: min_by_bic_def)
      then show ?thesis using keep(2) False kb by (auto simp: min_by_bic_def)
    qed
  next
    case later
    have lt: "flt (fst (snd r)) (fst (snd best))"
      using later(5) by (auto simp: min_by_bic_def split: if_splits dest: flt_trans)
    have nb: "\<not> flt b (fst (snd ?best'))"
      by (auto simp: min_by_bic_def flt_irrefl)
    have kne: "cand_bic L X k \<noteq> Inr (fst (snd r))"
      using nb later(5) kb by auto
    have "k # ks = (k # ks1) @ fst r # ks2" by (simp add: later(1))
    moreover have "\<forall>j\<in>set (k # ks1). cand_bic L X j \<noteq> Inr (fst (snd r))"
      using kne later(6) by simp
    ultimately show ?thesis using later(2,3,4) lt by blast
  qed
qed


lemma set_py_range: "set (py_range a b) = {k. a \<le> k \<and> k < b}"
  by (auto simp: py_range_def)

lemma sorted_split_before:
  assumes "sorted (ks1 @ (n::int) # ks2)" and "distinct (ks1 @ n # ks2)"
    and "j \<in> set (ks1 @ n # ks2)" and "j < n"
  shows "j \<in> set ks1"
  using assms by (auto simp: sorted_append)

lemma py_range_split_before:
  "py_range a b = ks1 @ n # ks2 \<Longrightarrow> a \<le> j \<Longrightarrow> j < n \<Longrightarrow> j \<in> set ks1"
proof -
  assume eq: "py_range a b = ks1 @ n # ks2" and aj: "a \<le> j" and jn: "j < n"
  have "n \<in> set (py_range a b)" by (simp add: eq)
  then have "n < b" by (simp add: set_py_range)
  then have "j \<in> set (py_range a b)" using aj jn by (simp add: set_py_range)
  moreover have "sorted (py_range a b)" "distinct (py_range a b)"
    by (simp_all add: py_range_def)
  ultimately show ?thesis using sorted_split_before [of ks1 n ks2 j] eq jn by simp
qed

text \<open>
  Claim C2, as amended. Whenever \<open>nb_clust_with_bic\<close> returns, the count either lies
  in the half-open interval from \<open>min_nc\<close> to \<open>min(max_nc, number of points)\<close>, and
  then its BIC is below plus infinity and the model is a fitted one, or it is the
  initial triple: count \<open>-1\<close>, BIC plus infinity and the placeholder for the model.
  The initial triple is what is returned when the candidate range is empty.
\<close>

theorem nb_clust_count_range_or_sentinel:
  assumes "nb_clust_with_bic L X min_nc max_nc = Inr (nc, b, g)"
  shows "((min_nc \<le> nc \<and> nc < min max_nc (int (length X)) \<and> flt b PosInf \<and> g \<noteq> None)
          \<or> (nc = - 1 \<and> b = PosInf \<and> g = None))
       \<and> (min max_nc (int (length X)) \<le> min_nc \<longrightarrow> nc = - 1 \<and> b = PosInf \<and> g = None)"
proof -
  let ?ks = "py_range min_nc (min max_nc (int (length X)))"
  have run: "bic_loop L X ?ks (- 1, PosInf, None) = Inr (nc, b, g)"
    using assms by (simp add: nb_clust_with_bic_def Let_def)
  from bic_loop_first [OF run] have
    "(nc = - 1 \<and> b = PosInf \<and> g = None) \<or>
     (\<exists>ks1 ks2. ?ks = ks1 @ nc # ks2 \<and> g \<noteq> None \<and> flt b PosInf)"
    by auto
  moreover have "?ks = ks1 @ nc # ks2 \<Longrightarrow> min_nc \<le> nc \<and> nc < min max_nc (int (length X))" for ks1 ks2
  proof -
    assume "?ks = ks1 @ nc # ks2"
    then have "nc \<in> set ?ks" by simp
    then show ?thesis by (simp add: set_py_range)
  qed
  moreover have "min max_nc (int (length X)) \<le> min_nc \<Longrightarrow> ?ks = []"
    by (simp add: py_range_def)
  ultimately show ?thesis by (metis append_is_Nil_conv list.distinct(1))
qed

text \<open>
  Claim C3, as amended. With fewer points than \<open>min_nc\<close> the candidate range is
  empty: \<open>nb_clust_with_bic\<close> fits nothing, raises nothing and returns the initial
  triple (count \<open>-1\<close>, BIC plus infinity, placeholder model).
\<close>

theorem nb_clust_few_points_sentinel:
  assumes "int (length X) < min_nc"
  shows "nb_clust_with_bic L X min_nc max_nc = Inr (- 1, PosInf, None)"
proof -
  have "py_range min_nc (min max_nc (int (length X))) = []"
    using assms by (simp add: py_range_def)
  then show ?thesis by (simp add: nb_clust_with_bic_def Let_def)
qed

text \<open>
  Claim C7. Let \<open>m\<close> be the minimum BIC over the candidate counts, a value below plus
  infinity, reached at the count \<open>k\<close> (and possibly at others). When
  \<open>nb_clust_with_bic\<close> returns, the returned count is a candidate whose BIC is \<open>m\<close>, no
  lower candidate has BIC \<open>m\<close>, and so it is at most \<open>k\<close>: among tied candidates the
  first-encountered, lowest count is returned.
\<close>

theorem nb_clust_tie_lowest:
  assumes run: "nb_clust_with_bic L X min_nc max_nc = Inr (nc, b, g)"
    and k: "min_nc \<le> k" "k < min max_nc (int (length X))"
    and km: "cand_bic L X k = Inr m"
    and fin: "flt m PosInf"
    and least: "\<forall>j. min_nc \<le> j \<and> j < min max_nc (int (length X)) \<longrightarrow>
                 (\<forall>bj. cand_bic L X j = Inr bj \<longrightarrow> \<not> flt bj m)"
  shows "min_nc \<le> nc \<and> nc < min max_nc (int (length X)) \<and> cand_bic L X nc = Inr m \<and> b = m
       \<and> nc \<le> k \<and> (\<forall>j. min_nc \<le> j \<and> j < nc \<longrightarrow> cand_bic L X j \<noteq> Inr m)"
proof -
  let ?hi = "min max_nc (int (length X))"
  let ?ks = "py_range min_nc ?hi"
  have loop: "bic_loop L X ?ks (- 1, PosInf, None) = Inr (nc, b, g)"
    using run by (simp add: nb_clust_with_bic_def Let_def)
  have kin: "k \<in> set ?ks" using k by (simp add: set_py_range)
  from bic_loop_min [OF loop] kin km have nb: "\<not> flt m b" by fastforce
  from bic_loop_first [OF loop] consider
    (keep) "b = PosInf" "\<forall>j\<in>set ?ks. \<exists>bj. cand_bic L X j = Inr bj \<and> \<not> flt bj PosInf"
  | (cand) ks1 ks2 g' where "?ks = ks1 @ nc # ks2" "fit L nc X = Inr g'" "bic L g' X = Inr b"
      "flt b PosInf" "\<forall>j\<in>set ks1. cand_bic L X j \<noteq> Inr b"
    by auto
  then show ?thesis
  proof cases
    case keep
    with kin km fin show ?thesis by fastforce
  next
    case cand
    have ncin: "nc \<in> set ?ks" by (simp add: cand(1))
    then have rng: "min_nc \<le> nc" "nc < ?hi" by (simp_all add: set_py_range)
    have cb: "cand_bic L X nc = Inr b" by (simp add: cand_bic_def cand(2,3))
    with least rng have "\<not> flt b m" by blast
    with nb fin cand(4) have bm: "b = m" using flt_antisym_eq by blast
    have before: "cand_bic L X j \<noteq> Inr m" if "min_nc \<le> j" "j < nc" for j
      using py_range_split_before [OF cand(1) that] cand(5) bm by blast
    have "nc \<le> k"
    proof (rule ccontr)
      assume "\<not> nc \<le> k"
      then have "k < nc" by simp
      from before [OF k(1) this] km show False by simp
    qed
    with rng cb bm before show ?thesis by blast
  qed
qed

text \<open>Concrete runs of the candidate loop.\<close>

theorem nb_clust_count_range_or_sentinel_witness:
  "nb_clust_with_bic (demo_lib (\<lambda>g. Fin \<bar>real_of_int g - 3\<bar>)) five_points 2 20
      = Inr (3, Fin 0, Some 3)
   \<and> (2::int) \<le> 3 \<and> (3::int) < min 20 (int (length five_points))"
proof -
  have run: "nb_clust_with_bic (demo_lib (\<lambda>g. Fin \<bar>real_of_int g - 3\<bar>)) five_points 2 20
      = Inr (3, Fin 0, Some 3)"
    by (simp add: nb_clust_with_bic_def py_range_def demo_lib_def five_points_def min_by_bic_def)
  from nb_clust_count_range_or_sentinel [OF run] run show ?thesis by simp
qed

text \<open>
  One point and the default bounds 2 and 20: the range is empty and the count is \<open>-1\<close>,
  outside every interval.
\<close>

theorem nb_clust_count_range_counterexample:
  "nb_clust_with_bic (demo_lib (\<lambda>g. Fin 0)) [(0, 0)] 2 20 = Inr (- 1, PosInf, None)
   \<and> \<not> ((2::int) \<le> - 1 \<and> (- 1::int) < min 20 (int (length [(0::real, 0::real)])))"
  by (simp add: nb_clust_with_bic_def py_range_def demo_lib_def)

theorem nb_clust_few_points_witness:
  "int (length [(0::real, 0::real)]) < 2
   \<and> nb_clust_with_bic (demo_lib (\<lambda>g. Fin 0)) [(0, 0)] 2 20 = Inr (- 1, PosInf, None)"
proof -
  have h: "int (length [(0::real, 0::real)]) < 2" by simp
  from nb_clust_few_points_sentinel [OF h] h show ?thesis by blast
qed

text \<open>One point is fewer than \<open>min_nc = 2\<close>, and the call returns: it does not raise.\<close>

theorem nb_clust_few_points_counterexample:
  "int (length [(0::real, 0::real)]) < 2
   \<and> \<not> isl (nb_clust_with_bic (demo_lib (\<lambda>g. Fin 0)) [(0, 0)] 2 20)"
  by (simp add: nb_clust_with_bic_def py_range_def demo_lib_def)

text \<open>Candidates 2, 3, 4 with BIC 9, 7, 7: the tie at 7 goes to 3.\<close>

theorem nb_clust_tie_lowest_witness:
  "nb_clust_with_bic (demo_lib (\<lambda>g. Fin (if g = 2 then 9 else 7))) five_points 2 20
      = Inr (3, Fin 7, Some 3)
   \<and> cand_bic (demo_lib (\<lambda>g. Fin (if g = 2 then 9 else 7))) five_points 4 = Inr (Fin 7)
   \<and> cand_bic (demo_lib (\<lambda>g. Fin (if g = 2 then 9 else 7))) five_points 3 = Inr (Fin 7)
   \<and> (3::int) \<le> 4"
proof -
  let ?L = "demo_lib (\<lambda>g. Fin (if g = 2 then 9 else 7))"
  have run: "nb_clust_with_bic ?L five_points 2 20 = Inr (3, Fin 7, Some 3)"
    by (simp add: nb_clust_with_bic_def py_range_def demo_lib_def five_points_def min_by_bic_def)
  have k: "(2::int) \<le> 4" "4 < min 20 (int (length five_points))"
    by (simp_all add: five_points_def)
  have km: "cand_bic ?L five_points 4 = Inr (Fin 7)"
    by (simp add: cand_bic_def demo_lib_def five_points_def)
  have fin: "flt (Fin 7) PosInf" by simp
  have least: "\<forall>j. 2 \<le> j \<and> j < min 20 (int (length five_points)) \<longrightarrow>
      (\<forall>bj. cand_bic ?L five_points j = Inr bj \<longrightarrow> \<not> flt bj (Fin 7))"
    by (auto simp: cand_bic_def demo_lib_def five_points_def)
  from nb_clust_tie_lowest [OF run k km fin least] run km show ?thesis by simp
qed

section \<open>The partition of a fold\<close>

lemma mask_isin_filter: "mask xs (map P xs) = filter P xs"
  by (induction xs) (auto simp: mask_def)

lemma data_test_filter:
  "data_test data cv = filter (\<lambda>p. id_traj p \<in> set cv) data"
  using mask_isin_filter [of data "\<lambda>p. id_traj p \<in> set cv"]
  by (simp add: data_test_def data_test_bool_def isin_def comp_def)

lemma data_train_filter:
  "data_train data cv = filter (\<lambda>p. id_traj p \<notin> set cv) data"
  using mask_isin_filter [of data "\<lambda>p. id_traj p \<notin> set cv"]
  by (simp add: data_train_def data_test_bool_def isin_def comp_def)

lemma distinct_map_filter_disjoint:
  "distinct (map f xs) \<Longrightarrow> set (map f (filter P xs)) \<inter> set (map f (filter (\<lambda>x. \<not> P x) xs)) = {}"
  by (induction xs) auto

text \<open>
  Claim C5. For every table and every held-out set, a row is a test row exactly when
  its \<open>id_traj\<close> is in the held-out set and a training row otherwise; the two arrays
  returned are the coordinates of these rows; their sizes add up to the size of the
  table; the training and the test rows together are the rows of the table, each once;
  no row is in both; and when the labels of the index are distinct (a DataFrame index
  that identifies its rows) no label is on both sides and every label is on one.
\<close>

theorem train_test_split_partition:
  "(\<forall>p\<in>set data. (p \<in> set (data_test data cv) \<longleftrightarrow> id_traj p \<in> set cv)
                 \<and> (p \<in> set (data_train data cv) \<longleftrightarrow> id_traj p \<notin> set cv))
   \<and> fst (train_test_split data cv i) = map (\<lambda>p. (lons p, lats p, id_traj p)) (data_train data cv)
   \<and> fst (snd (train_test_split data cv i)) = map (\<lambda>p. (lons p, lats p)) (data_test data cv)
   \<and> length (fst (train_test_split data cv i)) + length (fst (snd (train_test_split data cv i)))
       = length data
   \<and> mset (data_train data cv) + mset (data_test data cv) = mset data
   \<and> set (data_train data cv) \<inter> set (data_test data cv) = {}
   \<and> (distinct (map idx data) \<longrightarrow>
        set (map idx (data_train data cv)) \<inter> set (map idx (data_test data cv)) = {}
        \<and> set (map idx (data_train data cv)) \<union> set (map idx (data_test data cv))
            = set (map idx data))"
proof -
  have a: "\<forall>p\<in>set data. (p \<in> set (data_test data cv) \<longleftrightarrow> id_traj p \<in> set cv)
                 \<and> (p \<in> set (data_train data cv) \<longleftrightarrow> id_traj p \<notin> set cv)"
    by (simp add: data_test_filter data_train_filter)
  have b: "fst (train_test_split data cv i)
             = map (\<lambda>p. (lons p, lats p, id_traj p)) (data_train data cv)"
    and c: "fst (snd (train_test_split data cv i))
             = map (\<lambda>p. (lons p, lats p)) (data_test data cv)"
    by (simp_all add: train_test_split_def Let_def)
  have m: "mset (data_train data cv) + mset (data_test data cv) = mset data"
    by (simp add: data_test_filter data_train_filter)
  have d: "length (fst (train_test_split data cv i))
             + length (fst (snd (train_test_split data cv i))) = length data"
  proof -
    have "size (mset (data_train data cv) + mset (data_test data cv)) = size (mset data)"
      by (simp only: m)
    then show ?thesis by (simp add: b c)
  qed
  have e: "set (data_train data cv) \<inter> set (data_test data cv) = {}"
    by (auto simp: data_test_filter data_train_filter)
  have f: "set (map idx (data_train data cv)) \<inter> set (map idx (data_test data cv)) = {}"
    if "distinct (map idx data)"
    using distinct_map_filter_disjoint [OF that, of "\<lambda>p. id_traj p \<in> set cv"]
    by (simp add: data_test_filter data_train_filter Int_commute)
  have g: "set (map idx (data_train data cv)) \<union> set (map idx (data_test data cv))
             = set (map idx data)"
    by (auto simp: data_test_filter data_train_filter)
  from a b c d m e f g show ?thesis by blast
qed

text \<open>
  Claim C6. For every table, held-out set and fold number \<open>i\<close>, the index of the frame
  returned by \<open>train_test_split\<close> is the list of the index labels of the test rows, in
  the order of the table, and its only column is \<open>cv\<close>, equal to \<open>i\<close> on every row.
\<close>

theorem train_test_split_frame:
  "index (snd (snd (train_test_split data cv i)))
     = map idx (filter (\<lambda>p. id_traj p \<in> set cv) data)
   \<and> columns (snd (snd (train_test_split data cv i)))
     = [(Cv, replicate (length (filter (\<lambda>p. id_traj p \<in> set cv) data)) (Some (real i)))]"
  by (simp add: train_test_split_def Let_def set_column_def data_test_filter)

text \<open>The partition of the small table when trajectory 1 is held out.\<close>

theorem train_test_split_partition_witness:
  "distinct (map idx demo_data)
   \<and> map idx (data_train demo_data [1]) = [10, 11, 12]
   \<and> map idx (data_test demo_data [1]) = [13, 14, 15]
   \<and> set (map idx (data_train demo_data [1])) \<inter> set (map idx (data_test demo_data [1])) = {}
   \<and> length (fst (train_test_split demo_data [1] 0))
       + length (fst (snd (train_test_split demo_data [1] 0))) = length demo_data"
proof -
  have d: "distinct (map idx demo_data)" by (simp add: demo_data_def)
  have tr: "map idx (data_train demo_data [1]) = [10, 11, 12]"
    and te: "map idx (data_test demo_data [1]) = [13, 14, 15]"
    by (simp_all add: data_train_filter data_test_filter demo_data_def)
  from train_test_split_partition [of demo_data "[1]" 0] d tr te show ?thesis by blast
qed

theorem train_test_split_frame_witness:
  "index (snd (snd (train_test_split demo_data [1] 7))) = [13, 14, 15]
   \<and> columns (snd (snd (train_test_split demo_data [1] 7))) = [(Cv, [Some 7, Some 7, Some 7])]"
  using train_test_split_frame [of demo_data "[1]" 7]
  by (simp add: demo_data_def numeral_3_eq_3)

section \<open>One fold of the cross-validation\<close>

text \<open>
  Claim C4, on the small table with trajectory 1 held out and one class. The three test
  points have per-point log-likelihoods 2, 6 and 10 under the model fitted for class 0;
  the column \<open>score_0\<close> of the fold's frame holds their mean 6 on each of the three
  rows, because \<open>gmm.score\<close> is one float that the column assignment broadcasts.
\<close>

theorem fold_scores_are_one_broadcast_mean:
  "cv_loop (demo_lib (\<lambda>g. Fin 0)) no_draw demo_data 1 [0, 0] (enumerate 0 [[1]]) ([], [])
     = Inr ([[(0, Some 2)]],
            [\<lparr>index = [13, 14, 15],
              columns = [(Cv, [Some 0, Some 0, Some 0]), (Score 0, [Some 6, Some 6, Some 6])]\<rparr>])
   \<and> score_samples (demo_lib (\<lambda>g. Fin 0)) 2 [(1, 0), (3, 0), (5, 0)] = Inr [2, 6, 10]"
  by (simp add: train_test_split_def Let_def data_train_filter data_test_filter demo_data_def
      set_column_def np_where_eq_def class_coords_def mask_def subsample_def
      nb_clust_with_bic_def py_range_def demo_lib_def min_by_bic_def gmm_score_def
      no_draw_def upt_rec numeral_3_eq_3)

section \<open>Columns of the frames of the folds\<close>

lemma map_of_assign: "map_of (assign k v xs) = (map_of xs)(k \<mapsto> v)"
  by (induction xs) (auto simp: fun_eq_iff)

lemma set_assign_subset: "set (assign k v xs) \<subseteq> insert (k, v) (set xs)"
  by (induction xs) auto

lemma index_set_column: "index (set_column name v f) = index f"
  by (simp add: set_column_def)

lemma map_of_set_column:
  "map_of (columns (set_column name v f))
     = (map_of (columns f))(name \<mapsto> replicate (length (index f)) v)"
  by (simp add: set_column_def map_of_assign)

lemma wf_set_column: "wf_frame f \<Longrightarrow> wf_frame (set_column name v f)"
proof -
  assume wf: "wf_frame f"
  have "set (columns (set_column name v f))
          \<subseteq> insert (name, replicate (length (index f)) v) (set (columns f))"
    by (simp add: set_column_def set_assign_subset)
  with wf show ?thesis
    by (auto simp: wf_frame_def list_all_iff index_set_column)
qed

lemma class_loop_columns:
  "class_loop L draw labels train test cs st = Inr st' \<Longrightarrow>
     index (snd st') = index (snd st)
     \<and> (wf_frame (snd st) \<longrightarrow> wf_frame (snd st'))
     \<and> (\<forall>c\<in>set cs. \<exists>s. map_of (columns (snd st')) (Score c)
                          = Some (replicate (length (index (snd st))) (Some s)))
     \<and> (\<forall>name. name \<notin> Score ` set cs \<longrightarrow>
                 map_of (columns (snd st')) name = map_of (columns (snd st)) name)"
proof (induction cs arbitrary: st)
  case Nil
  then show ?case by simp
next
  case (Cons c cs)
  from Cons.prems obtain g s where
    rest: "class_loop L draw labels train test cs
             (assign c (Some g) (fst st), set_column (Score c) (Some s) (snd st)) = Inr st'"
    by (auto simp: Let_def split: sum.splits option.splits)
  let ?F1 = "set_column (Score c) (Some s) (snd st)"
  from Cons.IH [OF rest] have
    i: "index (snd st') = index ?F1" and
    w: "wf_frame ?F1 \<longrightarrow> wf_frame (snd st')" and
    sc: "\<forall>c'\<in>set cs. \<exists>s'. map_of (columns (snd st')) (Score c')
                          = Some (replicate (length (index ?F1)) (Some s'))" and
    keep: "\<forall>name. name \<notin> Score ` set cs \<longrightarrow>
                 map_of (columns (snd st')) name = map_of (columns ?F1) name"
    by simp_all
  have i': "index (snd st') = index (snd st)"
    using i by (simp add: index_set_column)
  have w': "wf_frame (snd st) \<longrightarrow> wf_frame (snd st')"
    using w wf_set_column by blast
  have here: "\<exists>s'. map_of (columns (snd st')) (Score c)
                 = Some (replicate (length (index (snd st))) (Some s'))"
  proof (cases "c \<in> set cs")
    case True
    with sc show ?thesis by (simp add: index_set_column)
  next
    case False
    then have "Score c \<notin> Score ` set cs" by auto
    with keep have "map_of (columns (snd st')) (Score c) = map_of (columns ?F1) (Score c)"
      by blast
    then show ?thesis by (simp add: map_of_set_column)
  qed
  have all: "\<forall>c'\<in>set (c # cs). \<exists>s'. map_of (columns (snd st')) (Score c')
                 = Some (replicate (length (index (snd st))) (Some s'))"
    using here sc by (simp add: index_set_column)
  have keep': "\<forall>name. name \<notin> Score ` set (c # cs) \<longrightarrow>
                 map_of (columns (snd st')) name = map_of (columns (snd st)) name"
    using keep by (auto simp: map_of_set_column)
  from i' w' all keep' show ?case by blast
qed

lemma class_loop_fold_frame:
  assumes "class_loop L draw labels train test [0..<nb]
             ([], snd (snd (train_test_split data (snd ic) (fst ic)))) = Inr st'"
  shows "fold_frame data nb ic (snd st')"
proof -
  let ?F0 = "snd (snd (train_test_split data (snd ic) (fst ic)))"
  have F0: "?F0 = set_column Cv (Some (real (fst ic)))
                    \<lparr>index = map idx (data_test data (snd ic)), columns = []\<rparr>"
    by (simp add: train_test_split_def Let_def)
  have i0: "index ?F0 = map idx (filter (\<lambda>p. id_traj p \<in> set (snd ic)) data)"
    by (simp add: F0 set_column_def data_test_filter)
  have w0: "wf_frame ?F0"
    by (simp add: F0 set_column_def wf_frame_def)
  have c0: "map_of (columns ?F0) Cv = Some (replicate (length (index ?F0)) (Some (real (fst ic))))"
    by (simp add: F0 set_column_def)
  from class_loop_columns [OF assms] have
    i: "index (snd st') = index ?F0" and
    w: "wf_frame ?F0 \<longrightarrow> wf_frame (snd st')" and
    sc: "\<forall>c\<in>set [0..<nb]. \<exists>s. map_of (columns (snd st')) (Score c)
                          = Some (replicate (length (index ?F0)) (Some s))" and
    keep: "\<forall>name. name \<notin> Score ` set [0..<nb] \<longrightarrow>
                 map_of (columns (snd st')) name = map_of (columns ?F0) name"
    by simp_all
  have "Cv \<notin> Score ` set [0..<nb]" by auto
  with keep c0 i have cv: "map_of (columns (snd st')) Cv
      = Some (replicate (length (index (snd st'))) (Some (real (fst ic))))"
    by simp
  show ?thesis
    unfolding fold_frame_def list_all_iff
    using i i0 w w0 cv sc by simp
qed

lemma cv_loop_frames:
  "cv_loop L draw data nb labels ics st = Inr st' \<Longrightarrow>
     \<exists>new. snd st' = snd st @ new \<and> list_all2 (fold_frame data nb) ics new"
proof (induction ics arbitrary: st)
  case Nil
  then show ?case by simp
next
  case (Cons ic ics)
  obtain train test F0 where sp: "train_test_split data (snd ic) (fst ic) = (train, test, F0)"
    by (cases "train_test_split data (snd ic) (fst ic)") auto
  from Cons.prems sp obtain gp F where
    cl: "class_loop L (draw (fst ic)) labels train test [0..<nb] ([], F0) = Inr (gp, F)" and
    rest: "cv_loop L draw data nb labels ics (fst st @ [gp], snd st @ [F]) = Inr st'"
    by (auto split: sum.splits)
  have "F0 = snd (snd (train_test_split data (snd ic) (fst ic)))" by (simp add: sp)
  with cl class_loop_fold_frame [of L "draw (fst ic)" labels train test nb data ic "(gp, F)"]
  have good: "fold_frame data nb ic F" by simp
  from Cons.IH [OF rest] obtain new where
    "snd st' = (snd st @ [F]) @ new" "list_all2 (fold_frame data nb) ics new"
    by auto
  with good have "snd st' = snd st @ (F # new) \<and> list_all2 (fold_frame data nb) (ic # ics) (F # new)"
    by simp
  then show ?case by blast
qed

section \<open>Concatenation, reindexing and the join\<close>

lemma map_of_tabulate:
  "map_of (map (\<lambda>k. (k, g k)) ks) k = (if k \<in> set ks then Some (g k) else None)"
  by (induction ks) auto

lemma map_of_map_snd:
  "map_of (map (\<lambda>nc. (fst nc, g (snd nc))) xs) k = map_option g (map_of xs k)"
  by (induction xs) auto

lemma index_pd_concat: "pd_concat fs = Inr whole \<Longrightarrow> index whole = concat (map index fs)"
  by (auto simp: pd_concat_def split: if_splits)

lemma map_of_pd_concat:
  assumes "pd_concat fs = Inr whole" and "f \<in> set fs" and "map_of (columns f) name = Some col"
  shows "map_of (columns whole) name = Some (concat (map (\<lambda>f. column_or_nan f name) fs))"
proof -
  let ?names = "rev (remdups (rev (concat (map (\<lambda>f. map fst (columns f)) fs))))"
  have "(name, col) \<in> set (columns f)"
    using assms(3) by (rule map_of_SomeD)
  then have "fst (name, col) \<in> fst ` set (columns f)" by (rule imageI)
  then have a: "name \<in> set (map fst (columns f))" by simp
  have b: "map fst (columns f) \<in> set (map (\<lambda>f. map fst (columns f)) fs)"
    using assms(2) by simp
  from a b have "name \<in> \<Union> (set ` set (map (\<lambda>f. map fst (columns f)) fs))" by blast
  then have "name \<in> set (concat (map (\<lambda>f. map fst (columns f)) fs))"
    by (simp only: set_concat)
  then have in_names: "name \<in> set ?names" by simp
  have ne: "fs \<noteq> []" using assms(2) by auto
  from assms(1) ne have "whole = \<lparr>index = concat (map index fs),
      columns = map (\<lambda>name. (name, concat (map (\<lambda>f. column_or_nan f name) fs))) ?names\<rparr>"
    by (simp add: pd_concat_def)
  then have "columns whole
      = map (\<lambda>name. (name, concat (map (\<lambda>f. column_or_nan f name) fs))) ?names"
    by simp
  then show ?thesis
    by (simp only: map_of_tabulate in_names if_True)
qed

lemma wf_frame_length:
  assumes "wf_frame f" and "map_of (columns f) name = Some col"
  shows "length col = length (index f)"
proof -
  have "(name, col) \<in> set (columns f)" using assms(2) by (rule map_of_SomeD)
  with assms(1) show ?thesis unfolding wf_frame_def list_all_iff by force
qed

lemma length_column_or_nan: "wf_frame f \<Longrightarrow> length (column_or_nan f name) = length (index f)"
  by (cases "map_of (columns f) name") (simp_all add: column_or_nan_def wf_frame_length)

lemma length_concat_columns:
  "\<forall>f\<in>set fs. wf_frame f \<Longrightarrow>
     length (concat (map (\<lambda>f. column_or_nan f name) fs)) = length (concat (map index fs))"
  by (induction fs) (auto simp: length_column_or_nan)

lemma wf_pd_concat:
  assumes "pd_concat fs = Inr whole" and "\<forall>f\<in>set fs. wf_frame f"
  shows "wf_frame whole"
proof -
  have ne: "fs \<noteq> []" using assms(1) by (auto simp: pd_concat_def split: if_splits)
  have w: "whole = \<lparr>index = concat (map index fs),
      columns = map (\<lambda>name. (name, concat (map (\<lambda>f. column_or_nan f name) fs)))
                  (rev (remdups (rev (concat (map (\<lambda>f. map fst (columns f)) fs)))))\<rparr>"
    using assms(1) ne by (simp add: pd_concat_def)
  show ?thesis
    unfolding wf_frame_def list_all_iff
    by (subst (1 2) w) (simp add: length_concat_columns [OF assms(2)] del: length_concat)
qed

lemma zip_concat_columns:
  "\<forall>f\<in>set fs. wf_frame f \<Longrightarrow>
     set (zip (concat (map index fs)) (concat (map (\<lambda>f. column_or_nan f name) fs)))
       = (\<Union>f\<in>set fs. set (zip (index f) (column_or_nan f name)))"
proof (induction fs)
  case Nil
  then show ?case by simp
next
  case (Cons f fs)
  have len: "length (index f) = length (column_or_nan f name)"
    using Cons.prems by (simp add: length_column_or_nan)
  have "zip (index f @ concat (map index fs))
          (column_or_nan f name @ concat (map (\<lambda>f. column_or_nan f name) fs))
        = zip (index f) (column_or_nan f name)
          @ zip (concat (map index fs)) (concat (map (\<lambda>f. column_or_nan f name) fs))"
    using len by (rule zip_append)
  then show ?case using Cons by simp
qed

lemma pos_of_Some:
  "l \<in> set ls \<Longrightarrow> \<exists>p. pos_of l ls = Some p \<and> p < length ls \<and> ls ! p = l"
  by (induction ls) auto

lemma reindex_entries:
  assumes re: "reindex f target = Inr r" and wf: "wf_frame f"
    and sub: "set target \<subseteq> set (index f)"
    and col: "map_of (columns f) name = Some col"
  shows "\<exists>col'. map_of (columns r) name = Some col' \<and> length col' = length target
           \<and> (\<forall>j<length target. (target ! j, col' ! j) \<in> set (zip (index f) col))"
proof -
  have len: "length col = length (index f)"
    using wf col by (rule wf_frame_length)
  show ?thesis
  proof (cases "index f = target")
    case True
    then have "r = f" using re by (simp add: reindex_def)
    moreover have "\<forall>j<length target. (target ! j, col ! j) \<in> set (zip (index f) col)"
      using True len by (auto simp: in_set_zip)
    ultimately show ?thesis using col len True by auto
  next
    case False
    let ?col' = "map (\<lambda>l. take_cell col (pos_of l (index f))) target"
    from False re have r: "r = \<lparr>index = target,
        columns = map (\<lambda>nc. (fst nc, map (\<lambda>l. take_cell (snd nc) (pos_of l (index f))) target))
                    (columns f)\<rparr>"
      by (auto simp: reindex_def split: if_splits)
    have m: "map_of (columns r) name = Some ?col'"
      using map_of_map_snd [of "\<lambda>c. map (\<lambda>l. take_cell c (pos_of l (index f))) target"
          "columns f" name]
      by (simp add: r col)
    have "(target ! j, ?col' ! j) \<in> set (zip (index f) col)" if "j < length target" for j
    proof -
      have "target ! j \<in> set (index f)" using that sub by auto
      from pos_of_Some [OF this] obtain p where
        p: "pos_of (target ! j) (index f) = Some p" "p < length (index f)"
           "index f ! p = target ! j"
        by blast
      have "?col' ! j = col ! p" using that p(1) by (simp add: take_cell_def)
      then show ?thesis using p len by (auto simp: in_set_zip)
    qed
    with m show ?thesis by auto
  qed
qed

lemma index_reindex: "reindex f target = Inr r \<Longrightarrow> index r = target"
  by (auto simp: reindex_def split: if_splits)

lemma wf_reindex: "reindex f target = Inr r \<Longrightarrow> wf_frame f \<Longrightarrow> wf_frame r"
  by (auto simp: reindex_def wf_frame_def list_all_iff split: if_splits)

lemma filter_eq_upt: "filter (\<lambda>i. i = j) [0..<n] = (if j < n then [j] else [])"
  by (induction n) auto

lemma positions_distinct:
  assumes "distinct ls" and "j < length ls"
  shows "positions (ls ! j) ls = [j]"
proof -
  have "filter (\<lambda>i. ls ! i = ls ! j) [0..<length ls] = filter (\<lambda>i. i = j) [0..<length ls]"
    using assms by (intro filter_cong) (auto simp: nth_eq_iff_index_eq)
  then show ?thesis using assms(2) by (simp add: positions_def filter_eq_upt)
qed

lemma concat_singletons: "concat (map (\<lambda>x. [g x]) xs) = map g xs"
  by (induction xs) auto

lemma join_pairs_distinct:
  assumes "distinct (map idx left)"
  shows "join_pairs left (map idx left) = map (\<lambda>j. (left ! j, Some j)) [0..<length left]"
proof -
  let ?h = "\<lambda>p. case positions (idx p) (map idx left) of
                   [] \<Rightarrow> [(p, None)]
                 | j # js \<Rightarrow> map (\<lambda>j. (p, Some j)) (j # js)"
  have "map ?h (map ((!) left) [0..<length left]) = map ?h left"
    by (simp only: map_nth)
  then have "map ?h left = map (\<lambda>j. ?h (left ! j)) [0..<length left]"
    by (simp only: map_map comp_def)
  also have "\<dots> = map (\<lambda>j. [(left ! j, Some j)]) [0..<length left]"
  proof (rule map_cong [OF refl])
    fix j assume "j \<in> set [0..<length left]"
    then have j: "j < length (map idx left)" by simp
    from positions_distinct [OF assms j] j
    show "?h (left ! j) = [(left ! j, Some j)]" by simp
  qed
  finally show ?thesis by (simp add: join_pairs_def concat_singletons)
qed

lemma join_aligned:
  assumes "distinct (map idx left)" and "index right = map idx left" and "wf_frame right"
  shows "join left right = \<lparr>rows = left, extra = columns right\<rparr>"
proof -
  let ?pairs = "map (\<lambda>j. (left ! j, Some j)) [0..<length left]"
  have r: "map fst ?pairs = left"
    by (simp add: comp_def map_nth)
  have c: "map (\<lambda>pj. take_cell col (snd pj)) ?pairs = col" if "length col = length left" for col
  proof -
    have "map (\<lambda>pj. take_cell col (snd pj)) ?pairs = map ((!) col) [0..<length col]"
      using that by (simp add: comp_def take_cell_def)
    then show ?thesis by (simp only: map_nth)
  qed
  have "map (\<lambda>nc. (fst nc, map (\<lambda>pj. take_cell (snd nc) (snd pj)) ?pairs)) (columns right)
          = columns right"
  proof (rule map_idI)
    fix nc assume "nc \<in> set (columns right)"
    then have "length (snd nc) = length left"
      using assms(2,3) unfolding wf_frame_def list_all_iff by force
    from c [OF this] show "(fst nc, map (\<lambda>pj. take_cell (snd nc) (snd pj)) ?pairs) = nc"
      by simp
  qed
  then show ?thesis
    using r by (simp add: join_def Let_def assms(2) join_pairs_distinct [OF assms(1)])
qed

section \<open>The score table\<close>

lemma fold_frame_score_entries:
  assumes "fold_frame data nb ic f" and "c < nb"
    and "(l, v) \<in> set (zip (index f) (column_or_nan f (Score c)))"
  shows "\<exists>s. v = Some s"
proof -
  from assms(1,2) obtain s where
    "map_of (columns f) (Score c) = Some (replicate (length (index f)) (Some s))"
    unfolding fold_frame_def list_all_iff by force
  then have "column_or_nan f (Score c) = replicate (length (index f)) (Some s)"
    by (simp add: column_or_nan_def)
  moreover have "v \<in> set (column_or_nan f (Score c))"
    using assms(3) by (rule set_zip_rightD)
  ultimately show ?thesis by auto
qed

lemma fold_frame_cv_entries:
  assumes "fold_frame data nb ic f"
    and "(l, v) \<in> set (zip (index f) (column_or_nan f Cv))"
  shows "v = Some (real (fst ic)) \<and> (\<exists>p\<in>set data. idx p = l \<and> id_traj p \<in> set (snd ic))"
proof -
  from assms(1) have
    c: "map_of (columns f) Cv = Some (replicate (length (index f)) (Some (real (fst ic))))"
    and i: "index f = map idx (filter (\<lambda>p. id_traj p \<in> set (snd ic)) data)"
    unfolding fold_frame_def by simp_all
  from c have "column_or_nan f Cv = replicate (length (index f)) (Some (real (fst ic)))"
    by (simp add: column_or_nan_def)
  moreover have "v \<in> set (column_or_nan f Cv)"
    using assms(2) by (rule set_zip_rightD)
  ultimately have v: "v = Some (real (fst ic))" by auto
  have "l \<in> set (index f)" using assms(2) by (rule set_zip_leftD)
  then have "\<exists>p\<in>set data. idx p = l \<and> id_traj p \<in> set (snd ic)"
    unfolding i by auto
  with v show ?thesis by simp
qed

lemma aligned_column:
  assumes cc: "pd_concat fs = Inr whole" and re: "reindex whole target = Inr aligned"
    and wf: "\<forall>f\<in>set fs. wf_frame f"
    and sub: "set target \<subseteq> set (index whole)"
    and has: "\<forall>f\<in>set fs. \<exists>col. map_of (columns f) name = Some col"
  shows "\<exists>col'. map_of (columns aligned) name = Some col' \<and> length col' = length target
           \<and> (\<forall>j<length target. \<exists>f\<in>set fs.
                  (target ! j, col' ! j) \<in> set (zip (index f) (column_or_nan f name)))"
proof -
  let ?col = "concat (map (\<lambda>f. column_or_nan f name) fs)"
  have ne: "fs \<noteq> []" using cc by (auto simp: pd_concat_def split: if_splits)
  then obtain f0 where f0: "f0 \<in> set fs" by (cases fs) auto
  with has obtain col0 where "map_of (columns f0) name = Some col0" by blast
  from map_of_pd_concat [OF cc f0 this] have m: "map_of (columns whole) name = Some ?col" .
  have w: "wf_frame whole" using cc wf by (rule wf_pd_concat)
  from reindex_entries [OF re w sub m] obtain col' where
    c1: "map_of (columns aligned) name = Some col'" and c2: "length col' = length target"
    and c3: "\<forall>j<length target. (target ! j, col' ! j) \<in> set (zip (index whole) ?col)"
    by blast
  have z: "set (zip (index whole) ?col)
             = (\<Union>f\<in>set fs. set (zip (index f) (column_or_nan f name)))"
    using zip_concat_columns [OF wf, of name] index_pd_concat [OF cc] by simp
  have "\<forall>j<length target. \<exists>f\<in>set fs.
          (target ! j, col' ! j) \<in> set (zip (index f) (column_or_nan f name))"
    using c3 unfolding z by blast
  with c1 c2 show ?thesis by blast
qed

lemma fold_frames_nth:
  assumes "list_all2 (fold_frame data nb) (enumerate 0 cv_list) fs"
  shows "length fs = length cv_list"
    and "f \<in> set fs \<Longrightarrow> \<exists>k<length cv_list. fold_frame data nb (k, cv_list ! k) f"
    and "k < length cv_list \<Longrightarrow> fold_frame data nb (k, cv_list ! k) (fs ! k) \<and> fs ! k \<in> set fs"
proof -
  show len: "length fs = length cv_list"
    using list_all2_lengthD [OF assms] by simp
  have nth: "fold_frame data nb (k, cv_list ! k) (fs ! k)" if "k < length cv_list" for k
    using list_all2_nthD [OF assms, of k] that by (simp add: nth_enumerate_eq)
  show "\<exists>k<length cv_list. fold_frame data nb (k, cv_list ! k) f" if "f \<in> set fs"
  proof -
    from that obtain k where "k < length fs" "fs ! k = f" by (auto simp: in_set_conv_nth)
    with nth [of k] len show ?thesis by auto
  qed
  show "fold_frame data nb (k, cv_list ! k) (fs ! k) \<and> fs ! k \<in> set fs" if "k < length cv_list"
    using nth [OF that] that len by simp
qed

text \<open>
  Claim C1. Let \<open>build_cross_clust_mixt_cv\<close> return a table, on an input table whose
  index labels are distinct and a fold list whose held-out sets are pairwise disjoint
  and together hold the \<open>id_traj\<close> of every row. Then the rows of the returned table
  are the rows of the input table in their order; every column \<open>Score c\<close>, \<open>c\<close> below
  the number of classes, has one cell per row and no cell is missing; and the column
  \<open>cv\<close> names, on every row, the one fold whose held-out set holds the row's
  trajectory: the row was test data in exactly that fold.
\<close>

theorem build_score_table_coverage:
  assumes run: "build_cross_clust_mixt_cv L draw data cv_list nb labels = Inr (gmm_cv, T)"
    and uniq: "distinct (map idx data)"
    and disj: "\<forall>i<length cv_list. \<forall>j<length cv_list. i \<noteq> j \<longrightarrow>
                 set (cv_list ! i) \<inter> set (cv_list ! j) = {}"
    and cover: "\<forall>p\<in>set data. \<exists>i<length cv_list. id_traj p \<in> set (cv_list ! i)"
  shows "rows T = data
     \<and> (\<forall>c<nb. \<exists>col. map_of (extra T) (Score c) = Some col \<and> length col = length data
                  \<and> (\<forall>j<length data. \<exists>v. col ! j = Some v))
     \<and> (\<exists>cvcol. map_of (extra T) Cv = Some cvcol \<and> length cvcol = length data
          \<and> (\<forall>j<length data. \<exists>i<length cv_list.
                 cvcol ! j = Some (real i) \<and> id_traj (data ! j) \<in> set (cv_list ! i)
                 \<and> (\<forall>i'<length cv_list. id_traj (data ! j) \<in> set (cv_list ! i') \<longrightarrow> i' = i)))"
proof -
  let ?target = "map idx data"
  from run obtain fs whole aligned where
    loop: "cv_loop L draw data nb labels (enumerate 0 cv_list) ([], []) = Inr (gmm_cv, fs)"
    and cc: "pd_concat fs = Inr whole"
    and re: "reindex whole ?target = Inr aligned"
    and T: "T = join data aligned"
    unfolding build_cross_clust_mixt_cv_def by (auto split: sum.splits)
  from cv_loop_frames [OF loop] have all2: "list_all2 (fold_frame data nb) (enumerate 0 cv_list) fs"
    by simp
  note ff = fold_frames_nth [OF all2]
  have wf: "\<forall>f\<in>set fs. wf_frame f"
    using ff(2) unfolding fold_frame_def by blast
  have sub: "set ?target \<subseteq> set (index whole)"
  proof
    fix l assume "l \<in> set ?target"
    then obtain p where p: "p \<in> set data" "l = idx p" by auto
    with cover obtain i where i: "i < length cv_list" "id_traj p \<in> set (cv_list ! i)" by blast
    from ff(3) [OF i(1)] have "index (fs ! i) = map idx (filter (\<lambda>p. id_traj p \<in> set (cv_list ! i)) data)"
      and "fs ! i \<in> set fs"
      unfolding fold_frame_def by simp_all
    with p i(2) have "l \<in> set (index (fs ! i))" "fs ! i \<in> set fs" by auto
    then have "l \<in> set (concat (map index fs))" by auto
    then show "l \<in> set (index whole)" by (simp add: index_pd_concat [OF cc])
  qed
  have wa: "wf_frame aligned"
    using re wf_pd_concat [OF cc wf] by (rule wf_reindex)
  have ia: "index aligned = ?target" using re by (rule index_reindex)
  have Teq: "T = \<lparr>rows = data, extra = columns aligned\<rparr>"
    unfolding T using uniq ia wa by (rule join_aligned)
  have scores: "\<exists>col. map_of (extra T) (Score c) = Some col \<and> length col = length data
                  \<and> (\<forall>j<length data. \<exists>v. col ! j = Some v)" if c: "c < nb" for c
  proof -
    have has: "\<forall>f\<in>set fs. \<exists>col. map_of (columns f) (Score c) = Some col"
    proof
      fix f assume "f \<in> set fs"
      from ff(2) [OF this] c show "\<exists>col. map_of (columns f) (Score c) = Some col"
        unfolding fold_frame_def list_all_iff by force
    qed
    from aligned_column [OF cc re wf sub has] obtain col' where
      c1: "map_of (columns aligned) (Score c) = Some col'"
      and c2: "length col' = length ?target"
      and c3: "\<forall>j<length ?target. \<exists>f\<in>set fs.
                  (?target ! j, col' ! j) \<in> set (zip (index f) (column_or_nan f (Score c)))"
      by blast
    have "\<exists>v. col' ! j = Some v" if "j < length data" for j
    proof -
      from c3 that obtain f where f: "f \<in> set fs"
        "(?target ! j, col' ! j) \<in> set (zip (index f) (column_or_nan f (Score c)))"
        by auto
      from ff(2) [OF f(1)] obtain k where "fold_frame data nb (k, cv_list ! k) f" by blast
      from fold_frame_score_entries [OF this c f(2)] show ?thesis .
    qed
    with c1 c2 show ?thesis by (simp add: Teq)
  qed
  have cvs: "\<exists>cvcol. map_of (extra T) Cv = Some cvcol \<and> length cvcol = length data
          \<and> (\<forall>j<length data. \<exists>i<length cv_list.
                 cvcol ! j = Some (real i) \<and> id_traj (data ! j) \<in> set (cv_list ! i)
                 \<and> (\<forall>i'<length cv_list. id_traj (data ! j) \<in> set (cv_list ! i') \<longrightarrow> i' = i))"
  proof -
    have has: "\<forall>f\<in>set fs. \<exists>col. map_of (columns f) Cv = Some col"
    proof
      fix f assume "f \<in> set fs"
      from ff(2) [OF this] show "\<exists>col. map_of (columns f) Cv = Some col"
        unfolding fold_frame_def by blast
    qed
    from aligned_column [OF cc re wf sub has] obtain col' where
      c1: "map_of (columns aligned) Cv = Some col'"
      and c2: "length col' = length ?target"
      and c3: "\<forall>j<length ?target. \<exists>f\<in>set fs.
                  (?target ! j, col' ! j) \<in> set (zip (index f) (column_or_nan f Cv))"
      by blast
    have "\<exists>i<length cv_list.
            col' ! j = Some (real i) \<and> id_traj (data ! j) \<in> set (cv_list ! i)
            \<and> (\<forall>i'<length cv_list. id_traj (data ! j) \<in> set (cv_list ! i') \<longrightarrow> i' = i)"
      if j: "j < length data" for j
    proof -
      from c3 j obtain f where f: "f \<in> set fs"
        "(?target ! j, col' ! j) \<in> set (zip (index f) (column_or_nan f Cv))"
        by auto
      from ff(2) [OF f(1)] obtain k where k: "k < length cv_list"
        "fold_frame data nb (k, cv_list ! k) f" by blast
      from fold_frame_cv_entries [OF k(2) f(2)] obtain p where
        v: "col' ! j = Some (real k)" and p: "p \<in> set data" "idx p = ?target ! j"
        "id_traj p \<in> set (cv_list ! k)"
        by auto
      have "inj_on idx (set data)" using uniq by (simp add: distinct_map)
      moreover have "data ! j \<in> set data" using j by simp
      moreover have "idx p = idx (data ! j)" using p(2) j by simp
      ultimately have "p = data ! j" using p(1) by (auto dest: inj_onD)
      with p(3) have mem: "id_traj (data ! j) \<in> set (cv_list ! k)" by simp
      have "i' = k" if "i' < length cv_list" "id_traj (data ! j) \<in> set (cv_list ! i')" for i'
      proof (rule ccontr)
        assume "i' \<noteq> k"
        with disj that(1) k(1) have "set (cv_list ! i') \<inter> set (cv_list ! k) = {}" by blast
        with that(2) mem show False by blast
      qed
      with v mem k(1) show ?thesis by blast
    qed
    with c1 c2 show ?thesis by (simp add: Teq)
  qed
  from scores cvs show ?thesis by (simp add: Teq)
qed

text \<open>
  The small table with the folds \<open>{1}\<close> and \<open>{0}\<close> and one class: the frames of the
  folds come in the order 13, 14, 15, 10, 11, 12 and are brought back to the order of
  the table.
\<close>

theorem build_score_table_coverage_witness:
  "build_cross_clust_mixt_cv (demo_lib (\<lambda>g. Fin 0)) no_draw demo_data [[1], [0]] 1 [0, 0]
     = Inr ([[(0, Some 2)], [(0, Some 2)]],
            \<lparr>rows = demo_data,
              extra = [(Cv, [Some 1, Some 1, Some 1, Some 0, Some 0, Some 0]),
                       (Score 0, [Some 2, Some 2, Some 2, Some 6, Some 6, Some 6])]\<rparr>)
   \<and> distinct (map idx demo_data)
   \<and> set [1 :: int] \<inter> set [0] = {}
   \<and> id_traj ` set demo_data \<subseteq> set [1] \<union> set [0]
   \<and> rows \<lparr>rows = demo_data,
              extra = [(Cv, [Some 1, Some 1, Some 1, Some 0, Some 0, Some 0]),
                       (Score 0, [Some 2, Some 2, Some 2, Some 6, Some 6, Some 6])]\<rparr>
       = demo_data"
proof -
  let ?T = "\<lparr>rows = demo_data,
              extra = [(Cv, [Some 1, Some 1, Some 1, Some 0, Some 0, Some 0]),
                       (Score 0, [Some 2, Some 2, Some 2, Some 6, Some 6, Some (6 :: real)])]\<rparr>"
  have run: "build_cross_clust_mixt_cv (demo_lib (\<lambda>g. Fin 0)) no_draw demo_data [[1], [0]] 1 [0, 0]
     = Inr ([[(0, Some 2)], [(0, Some 2)]], ?T)"
    by (simp add: build_cross_clust_mixt_cv_def enumerate_eq_zip
      train_test_split_def Let_def data_train_filter data_test_filter demo_data_def
      set_column_def np_where_eq_def class_coords_def mask_def subsample_def
      nb_clust_with_bic_def py_range_def demo_lib_def min_by_bic_def gmm_score_def
      no_draw_def upt_rec numeral_3_eq_3
      pd_concat_def column_or_nan_def reindex_def take_cell_def join_def join_pairs_def
      positions_def)
  have uniq: "distinct (map idx demo_data)" by (simp add: demo_data_def)
  have disj: "\<forall>i<length [[1], [0 :: int]]. \<forall>j<length [[1], [0 :: int]]. i \<noteq> j \<longrightarrow>
                 set ([[1], [0]] ! i) \<inter> set ([[1], [0 :: int]] ! j) = {}"
    by (auto simp: less_Suc_eq nth_Cons')
  have in0: "\<exists>i<length [[1], [0 :: int]]. (0 :: int) \<in> set ([[1], [0]] ! i)"
    by (rule exI [of _ 1]) simp
  have in1: "\<exists>i<length [[1], [0 :: int]]. (1 :: int) \<in> set ([[1], [0]] ! i)"
    by (rule exI [of _ 0]) simp
  have cover: "\<forall>p\<in>set demo_data. \<exists>i<length [[1], [0 :: int]]. id_traj p \<in> set ([[1], [0]] ! i)"
    using in0 in1 by (simp add: demo_data_def)
  have sub: "id_traj ` set demo_data \<subseteq> set [1] \<union> set [0]" by (simp add: demo_data_def)
  from build_score_table_coverage [OF run uniq disj cover] have "rows ?T = demo_data" by blast
  with run uniq sub show ?thesis by simp
qed

section \<open>Cumulative scores of a trajectory\<close>

lemma length_cumsum_from: "length (cumsum_from a cs) = length cs"
  by (induction a cs rule: cumsum_from.induct) simp_all

lemma cumsum_from_append:
  "cumsum_from a (xs @ ys) = cumsum_from a xs @ cumsum_from (a + sum_list (map present xs)) ys"
  by (induction a xs rule: cumsum_from.induct) (simp_all add: present_def add.assoc)

lemma cumsum_from_single: "cumsum_from a [c] = [map_option (\<lambda>v. a + v) c]"
  by (cases c) simp_all

lemma cumsum_entries:
  "set (zip (filter Q [0..<n]) (cumsum_from 0 (map ((!) col) (filter Q [0..<n]))))
     = (\<lambda>j. (j, map_option (\<lambda>_. sum_list (map (\<lambda>i. present (col ! i)) (filter Q [0..<Suc j])))
                   (col ! j))) ` {j. j < n \<and> Q j}"
proof (induction n)
  case 0
  then show ?case by simp
next
  case (Suc n)
  let ?g = "\<lambda>j. (j, map_option (\<lambda>_. sum_list (map (\<lambda>i. present (col ! i)) (filter Q [0..<Suc j])))
                   (col ! j))"
  show ?case
  proof (cases "Q n")
    case False
    have "{j. j < Suc n \<and> Q j} = {j. j < n \<and> Q j}"
      using False less_Suc_eq by auto
    with Suc False show ?thesis by simp
  next
    case True
    let ?P = "filter Q [0..<n]"
    have len: "length ?P = length (cumsum_from 0 (map ((!) col) ?P))"
      by (simp add: length_cumsum_from)
    have f: "filter Q [0..<Suc n] = ?P @ [n]" using True by simp
    define X where
      "X = map_option (\<lambda>v. sum_list (map present (map ((!) col) ?P)) + v) (col ! n)"
    define G where "G = ?g"
    have GX: "G n = (n, X)"
      unfolding G_def X_def using True
      by (cases "col ! n") (simp_all add: comp_def present_def)
    have c: "cumsum_from 0 (map ((!) col) (?P @ [n])) = cumsum_from 0 (map ((!) col) ?P) @ [X]"
      unfolding X_def by (simp add: cumsum_from_append cumsum_from_single)
    have s: "{j. j < Suc n \<and> Q j} = insert n {j. j < n \<and> Q j}"
      using True less_Suc_eq by auto
    have ih: "set (zip ?P (cumsum_from 0 (map ((!) col) ?P))) = G ` {j. j < n \<and> Q j}"
      unfolding G_def by (rule Suc.IH)
    have "set (zip (filter Q [0..<Suc n]) (cumsum_from 0 (map ((!) col) (filter Q [0..<Suc n]))))
            = set (zip (?P @ [n]) (cumsum_from 0 (map ((!) col) ?P) @ [X]))"
      by (simp only: f c)
    also have "\<dots> = insert (n, X) (set (zip ?P (cumsum_from 0 (map ((!) col) ?P))))"
      using len by (simp add: zip_append)
    also have "\<dots> = insert (G n) (G ` {j. j < n \<and> Q j})"
      by (simp only: GX ih)
    also have "\<dots> = G ` {j. j < Suc n \<and> Q j}"
      unfolding s by simp
    finally have "set (zip (filter Q [0..<Suc n])
            (cumsum_from 0 (map ((!) col) (filter Q [0..<Suc n])))) = G ` {j. j < Suc n \<and> Q j}" .
    then show ?thesis unfolding G_def .
  qed
qed

lemma present_simps: "present None = 0" "present (Some v) = v"
  by (simp_all add: present_def)

lemma sum_present_all_None: "\<forall>c\<in>set cs. c = None \<Longrightarrow> sum_list (map present cs) = 0"
  by (induction cs) (simp_all add: present_simps)

lemma last_valid_cumsum_from:
  "last_valid (cumsum_from a cs)
     = (if \<forall>c\<in>set cs. c = None then None else Some (a + sum_list (map present cs)))"
proof (induction a cs rule: cumsum_from.induct)
  case (1 acc)
  then show ?case by simp
next
  case (2 acc cs)
  then show ?case by (simp add: present_simps)
next
  case (3 acc v cs)
  show ?case
  proof (cases "\<forall>c\<in>set cs. c = None")
    case True
    with 3 show ?thesis by (simp add: present_simps sum_present_all_None)
  next
    case False
    with 3 show ?thesis by (simp add: present_simps add.assoc)
  qed
qed

lemma map_of_filter_fst:
  "map_of (filter (\<lambda>nc. P (fst nc)) xs) k = (if P k then map_of xs k else None)"
  by (induction xs) auto

lemma distinct_concat_filters:
  assumes "distinct ks" and "distinct xs"
  shows "distinct (concat (map (\<lambda>k. filter (\<lambda>j. h j = k) xs) ks))"
  using assms(1)
proof (induction ks)
  case Nil
  then show ?case by simp
next
  case (Cons k ks)
  have "set (filter (\<lambda>j. h j = k) xs) \<inter> set (concat (map (\<lambda>k. filter (\<lambda>j. h j = k) xs) ks)) = {}"
    using Cons.prems by auto
  with Cons assms(2) show ?case by simp
qed


lemma set_group_keys: "set (group_keys ids) = set ids"
  by (simp add: group_keys_def)

lemma distinct_group_keys: "distinct (group_keys ids)"
  by (simp add: group_keys_def)

lemma set_group_positions: "set (group_positions ids k) = {j. j < length ids \<and> ids ! j = k}"
  by (auto simp: group_positions_def)

lemma index_cumsum_group:
  "index (cumsum_group data k)
     = map ((!) (map idx (rows data))) (group_positions (map id_traj (rows data)) k)"
  by (simp add: cumsum_group_def Let_def take_rows_def)

lemma map_of_cumsum_group:
  assumes "is_score name" and "map_of (extra data) name = Some col"
  shows "map_of (columns (cumsum_group data k)) name
           = Some (cumsum (take_rows col (group_positions (map id_traj (rows data)) k)))"
proof -
  let ?P = "group_positions (map id_traj (rows data)) k"
  let ?sc = "filter (\<lambda>nc. is_score (fst nc)) (extra data)"
  have "map_of ?sc name = Some col"
    using assms map_of_filter_fst [of is_score "extra data" name] by simp
  moreover have "columns (cumsum_group data k)
                   = map (\<lambda>nc. (fst nc, (\<lambda>c. cumsum (take_rows c ?P)) (snd nc))) ?sc"
    by (simp add: cumsum_group_def Let_def)
  ultimately show ?thesis
    using map_of_map_snd [of "\<lambda>c. cumsum (take_rows c ?P)" ?sc name] by simp
qed

lemma wf_cumsum_group: "wf_frame (cumsum_group data k)"
  by (simp add: wf_frame_def list_all_iff cumsum_group_def Let_def cumsum_def
      length_cumsum_from take_rows_def)

lemma zip_cumsum_group:
  assumes "is_score name" and "map_of (extra data) name = Some col"
    and "(l, v) \<in> set (zip (index (cumsum_group data k))
                          (column_or_nan (cumsum_group data k) name))"
  shows "\<exists>p<length (rows data). id_traj (rows data ! p) = k \<and> l = idx (rows data ! p)
           \<and> v = map_option (\<lambda>_. running_sum (map id_traj (rows data)) col p) (col ! p)"
proof -
  let ?ids = "map id_traj (rows data)"
  let ?P = "group_positions ?ids k"
  let ?Q = "\<lambda>j. ?ids ! j = k"
  let ?cum = "cumsum_from 0 (map ((!) col) ?P)"
  have P: "?P = filter ?Q [0..<length ?ids]" by (simp add: group_positions_def)
  have cn: "column_or_nan (cumsum_group data k) name = ?cum"
    using map_of_cumsum_group [OF assms(1,2), of k]
    by (simp add: column_or_nan_def cumsum_def take_rows_def)
  have "zip (map ((!) (map idx (rows data))) ?P) ?cum
          = map (\<lambda>py. (map idx (rows data) ! fst py, snd py)) (zip ?P ?cum)"
    by (simp add: zip_map1 case_prod_beta)
  with assms(3) cn index_cumsum_group [of data k]
  have "(l, v) \<in> (\<lambda>py. (map idx (rows data) ! fst py, snd py)) ` set (zip ?P ?cum)"
    by simp
  then obtain p y where py: "(p, y) \<in> set (zip ?P ?cum)" and l: "l = map idx (rows data) ! p"
    and v: "v = y" by auto
  from py have "(p, y) \<in> (\<lambda>j. (j, map_option
        (\<lambda>_. sum_list (map (\<lambda>i. present (col ! i)) (filter ?Q [0..<Suc j]))) (col ! j)))
        ` {j. j < length ?ids \<and> ?Q j}"
    unfolding P cumsum_entries [of ?Q "length ?ids" col] .
  then have p: "p < length ?ids" "?ids ! p = k"
    and y: "y = map_option
        (\<lambda>_. sum_list (map (\<lambda>i. present (col ! i)) (filter ?Q [0..<Suc p]))) (col ! p)"
    by auto
  have "running_sum ?ids col p
          = sum_list (map (\<lambda>i. present (col ! i)) (filter ?Q [0..<Suc p]))"
    unfolding running_sum_def using p(2) by simp
  with y have "y = map_option (\<lambda>_. running_sum ?ids col p) (col ! p)" by simp
  with p l v show ?thesis by auto
qed


lemma index_concat_groups:
  "concat (map index (map (cumsum_group data) ks))
     = map ((!) (map idx (rows data)))
         (concat (map (group_positions (map id_traj (rows data))) ks))"
  by (induction ks) (simp_all add: index_cumsum_group)

lemma create_cumsum_data_succeeds:
  assumes uniq: "distinct (map idx (rows data))" and ne: "rows data \<noteq> []"
  shows "\<exists>whole F. pd_concat (map (cumsum_group data) (group_keys (map id_traj (rows data))))
                     = Inr whole
           \<and> reindex whole (map idx (rows data)) = Inr F
           \<and> create_cumsum_data data = Inr F
           \<and> set (map idx (rows data)) \<subseteq> set (index whole)"
proof -
  let ?ids = "map id_traj (rows data)"
  let ?idxs = "map idx (rows data)"
  let ?keys = "group_keys ?ids"
  let ?applied = "map (cumsum_group data) ?keys"
  let ?L = "concat (map (group_positions ?ids) ?keys)"
  have "set ?keys \<noteq> {}" using ne by (simp add: set_group_keys)
  then have kne: "?keys \<noteq> []" by auto
  then have ane: "?applied \<noteq> []" by simp
  then obtain whole where cc: "pd_concat ?applied = Inr whole"
    by (simp add: pd_concat_def)
  have iw: "index whole = map ((!) ?idxs) ?L"
    using index_pd_concat [OF cc] index_concat_groups [of data ?keys] by simp
  have "?L = concat (map (\<lambda>k. filter (\<lambda>j. ?ids ! j = k) [0..<length ?ids]) ?keys)"
    by (simp add: group_positions_def [abs_def])
  then have dL: "distinct ?L"
    using distinct_concat_filters [OF distinct_group_keys, where xs = "[0..<length ?ids]"
        and h = "\<lambda>j. ?ids ! j" and ids1 = ?ids]
    by simp
  have rng: "\<forall>j\<in>set ?L. j < length ?idxs"
    by (auto simp: set_group_positions)
  have "inj_on ((!) ?idxs) (set ?L)"
    using uniq rng by (intro inj_on_nth) auto
  with dL have dw: "distinct (index whole)"
    unfolding iw by (simp add: distinct_map)
  then have "\<exists>F. reindex whole ?idxs = Inr F"
    by (cases "index whole = ?idxs") (simp_all add: reindex_def)
  then obtain F where re: "reindex whole ?idxs = Inr F" ..
  have cr: "create_cumsum_data data = Inr F"
    using ane cc re uniq by (simp add: create_cumsum_data_def Let_def)
  have sub: "set ?idxs \<subseteq> set (index whole)"
  proof
    fix l assume "l \<in> set ?idxs"
    then obtain j where j: "j < length ?idxs" "l = ?idxs ! j" by (auto simp: in_set_conv_nth)
    then have "?ids ! j \<in> set ?keys" by (simp add: set_group_keys)
    moreover have "j \<in> set (group_positions ?ids (?ids ! j))"
      using j(1) by (simp add: set_group_positions)
    ultimately have "j \<in> set ?L" by auto
    then show "l \<in> set (index whole)" unfolding iw j(2) by simp
  qed
  from cc re cr sub show ?thesis by blast
qed

lemma create_cumsum_data_column:
  assumes uniq: "distinct (map idx (rows data))" and ne: "rows data \<noteq> []"
    and sc: "is_score name" and col: "map_of (extra data) name = Some col"
  shows "\<exists>F col'. create_cumsum_data data = Inr F \<and> index F = map idx (rows data)
           \<and> wf_frame F
           \<and> map_of (columns F) name = Some col' \<and> length col' = length (rows data)
           \<and> (\<forall>j<length (rows data).
                 col' ! j = map_option (\<lambda>_. running_sum (map id_traj (rows data)) col j) (col ! j))"
proof -
  let ?ids = "map id_traj (rows data)"
  let ?idxs = "map idx (rows data)"
  let ?applied = "map (cumsum_group data) (group_keys ?ids)"
  from create_cumsum_data_succeeds [OF uniq ne] obtain whole F where
    cc: "pd_concat ?applied = Inr whole" and re: "reindex whole ?idxs = Inr F"
    and cr: "create_cumsum_data data = Inr F" and sub: "set ?idxs \<subseteq> set (index whole)"
    by blast
  have wf: "\<forall>f\<in>set ?applied. wf_frame f" by (auto simp: wf_cumsum_group)
  have has: "\<forall>f\<in>set ?applied. \<exists>c. map_of (columns f) name = Some c"
    using map_of_cumsum_group [OF sc col] by auto
  from aligned_column [OF cc re wf sub has] obtain col' where
    c1: "map_of (columns F) name = Some col'" and c2: "length col' = length ?idxs"
    and c3: "\<forall>j<length ?idxs. \<exists>f\<in>set ?applied.
               (?idxs ! j, col' ! j) \<in> set (zip (index f) (column_or_nan f name))"
    by blast
  have vals: "col' ! j = map_option (\<lambda>_. running_sum ?ids col j) (col ! j)"
    if j: "j < length (rows data)" for j
  proof -
    from c3 j obtain k where
      "(?idxs ! j, col' ! j) \<in> set (zip (index (cumsum_group data k))
                                        (column_or_nan (cumsum_group data k) name))"
      by auto
    from zip_cumsum_group [OF sc col this] obtain p where
      p: "p < length (rows data)" "?idxs ! j = idx (rows data ! p)"
      and v: "col' ! j = map_option (\<lambda>_. running_sum ?ids col p) (col ! p)"
      by blast
    have e: "?idxs ! j = ?idxs ! p" using p j by simp
    have "(?idxs ! j = ?idxs ! p) = (j = p)"
      by (rule nth_eq_iff_index_eq [OF uniq]) (use j p in simp_all)
    with e have "j = p" by blast
    with v show ?thesis by simp
  qed
  have wF: "wf_frame F" using re wf_pd_concat [OF cc wf] by (rule wf_reindex)
  have iF: "index F = ?idxs" using re by (rule index_reindex)
  from cr iF wF c1 c2 vals show ?thesis by auto
qed


text \<open>
  On a table with no row the score columns are kept, and on an index that repeats a
  label the running sums come back label by label: the rows of label 0 first.
\<close>

lemma create_cumsum_data_empty:
  "create_cumsum_data \<lparr>rows = [], extra = [(Cv, []), (Score 0, []), (Score 1, [])]\<rparr>
     = Inr \<lparr>index = [], columns = [(Score 0, []), (Score 1, [])]\<rparr>"
  by (simp add: create_cumsum_data_def Let_def group_keys_def)

lemma create_cumsum_data_repeated:
  "create_cumsum_data demo_repeated
     = Inr \<lparr>index = [0, 0, 1], columns = [(Score 0, [Some 6, Some 1, Some 2])]\<rparr>"
  by (simp add: create_cumsum_data_def cumsum_group_def Let_def demo_repeated_def
      group_keys_def group_positions_def take_rows_def cumsum_def pd_concat_def
      column_or_nan_def take_frame_def unique1d_def positions_def upt_rec)

lemma present_ids_map_Some: "present_ids (map Some ids) = ids"
  by (induction ids) (simp_all add: present_ids_def)

lemma group_positions_map_Some:
  "group_positions (map Some ids) (Some k) = group_positions ids k"
  unfolding group_positions_def by (rule filter_cong) simp_all

lemma running_sum_in_group:
  assumes "p < length ids" and "ids ! p = k"
  shows "running_sum ids col p
           = sum_list (map (\<lambda>i. present (col ! i)) (filter (\<lambda>j. ids ! j = k) [0..<Suc p]))"
  unfolding running_sum_def using assms(2) by simp

lemma group_column_is_cumsum:
  assumes vals: "\<forall>j<length ids. col' ! j = map_option (\<lambda>_. running_sum ids col j) (col ! j)"
  shows "take_rows col' (group_positions ids k) = cumsum (take_rows col (group_positions ids k))"
proof (rule nth_equalityI)
  let ?Q = "\<lambda>j. ids ! j = k"
  let ?P = "group_positions ids k"
  let ?cum = "cumsum_from 0 (map ((!) col) ?P)"
  have P: "?P = filter ?Q [0..<length ids]" by (simp add: group_positions_def)
  show len: "length (take_rows col' ?P) = length (cumsum (take_rows col ?P))"
    by (simp add: take_rows_def cumsum_def length_cumsum_from)
  fix m assume "m < length (take_rows col' ?P)"
  then have m: "m < length ?P" by (simp add: take_rows_def)
  let ?p = "?P ! m"
  have "?p \<in> set ?P" using m by simp
  then have p: "?p < length ids" "ids ! ?p = k" by (simp_all add: set_group_positions)
  have "m < length ?cum" using m by (simp add: length_cumsum_from)
  with m have "(?p, ?cum ! m) \<in> set (zip ?P ?cum)"
    by (auto simp: in_set_zip)
  then have "(?p, ?cum ! m) \<in> (\<lambda>j. (j, map_option
        (\<lambda>_. sum_list (map (\<lambda>i. present (col ! i)) (filter ?Q [0..<Suc j]))) (col ! j)))
        ` {j. j < length ids \<and> ?Q j}"
    unfolding P cumsum_entries [of ?Q "length ids" col] .
  then have "?cum ! m = map_option
        (\<lambda>_. sum_list (map (\<lambda>i. present (col ! i)) (filter ?Q [0..<Suc ?p]))) (col ! ?p)"
    by auto
  also have "\<dots> = map_option (\<lambda>_. running_sum ids col ?p) (col ! ?p)"
    using running_sum_in_group [OF p, of col] by simp
  also have "\<dots> = col' ! ?p" using vals p(1) by simp
  finally show "take_rows col' ?P ! m = cumsum (take_rows col ?P) ! m"
    using m by (simp add: take_rows_def cumsum_def)
qed

lemma last_valid_cumsum_group:
  "last_valid (cumsum (take_rows col (group_positions ids k)))
     = (if \<exists>i<length ids. ids ! i = k \<and> col ! i \<noteq> None then Some (full_sum ids col k) else None)"
proof -
  let ?P = "group_positions ids k"
  have a: "(\<forall>c\<in>set (take_rows col ?P). c = None)
             \<longleftrightarrow> \<not> (\<exists>i<length ids. ids ! i = k \<and> col ! i \<noteq> None)"
    by (auto simp: take_rows_def set_group_positions)
  have b: "sum_list (map present (take_rows col ?P)) = full_sum ids col k"
    by (simp add: take_rows_def full_sum_def group_positions_def comp_def)
  show ?thesis
    unfolding cumsum_def last_valid_cumsum_from a b by simp
qed


text \<open>
  Claim C8. On a table with at least one row, distinct index labels and one cell per
  row in every column, \<open>create_cumsum_data\<close> returns a frame on the index of the table
  in which every score column holds, on each row with a score, the sum of the scores
  of the rows of the same \<open>id_traj\<close> up to that row, in the order of the table (scores
  \<open>s1, s2, s3\<close> of a trajectory give \<open>s1, s1 + s2, s1 + s2 + s3\<close>); a missing score
  stays missing. The terminal value that \<open>groupby("id_traj").last()\<close> takes from this
  column for a trajectory is the sum of all the scores of the trajectory.
\<close>

theorem create_cumsum_data_running_sum:
  assumes uniq: "distinct (map idx (rows data))" and wf: "wf_table data"
    and ne: "rows data \<noteq> []"
    and sc: "is_score name" and col: "map_of (extra data) name = Some col"
  shows "\<exists>F col' t.
           create_cumsum_data data = Inr F \<and> index F = map idx (rows data)
           \<and> map_of (columns F) name = Some col' \<and> length col' = length (rows data)
           \<and> (\<forall>j<length (rows data).
                 col' ! j = map_option (\<lambda>_. running_sum (map id_traj (rows data)) col j) (col ! j))
           \<and> index (groupby_last (map Some (map id_traj (rows data))) F)
                 = group_keys (map id_traj (rows data))
           \<and> map_of (columns (groupby_last (map Some (map id_traj (rows data))) F)) name = Some t
           \<and> length t = length (group_keys (map id_traj (rows data)))
           \<and> (\<forall>m<length (group_keys (map id_traj (rows data))).
                 t ! m = (if \<exists>i<length (rows data).
                               id_traj (rows data ! i) = group_keys (map id_traj (rows data)) ! m
                               \<and> col ! i \<noteq> None
                          then Some (full_sum (map id_traj (rows data)) col
                                       (group_keys (map id_traj (rows data)) ! m))
                          else None))"
proof -
  let ?ids = "map id_traj (rows data)"
  let ?keys = "group_keys ?ids"
  from create_cumsum_data_column [OF uniq ne sc col] obtain F col' where
    cr: "create_cumsum_data data = Inr F" and iF: "index F = map idx (rows data)"
    and c1: "map_of (columns F) name = Some col'" and c2: "length col' = length (rows data)"
    and vals: "\<forall>j<length (rows data). col' ! j = map_option (\<lambda>_. running_sum ?ids col j) (col ! j)"
    by blast
  let ?h = "\<lambda>c. map (\<lambda>k. last_valid (take_rows c (group_positions (map Some ?ids) (Some k)))) ?keys"
  let ?G = "groupby_last (map Some ?ids) F"
  have iG: "index ?G = ?keys"
    unfolding groupby_last_def Let_def present_ids_map_Some by simp
  have "columns ?G = map (\<lambda>nc. (fst nc, ?h (snd nc))) (columns F)"
    unfolding groupby_last_def Let_def present_ids_map_Some by simp
  then have cG: "map_of (columns ?G) name = Some (?h col')"
    using map_of_map_snd [of ?h "columns F" name] c1 by simp
  have vals': "\<forall>j<length ?ids. col' ! j = map_option (\<lambda>_. running_sum ?ids col j) (col ! j)"
    using vals by simp
  have t: "?h col' ! m = (if \<exists>i<length (rows data). id_traj (rows data ! i) = ?keys ! m
                               \<and> col ! i \<noteq> None
                          then Some (full_sum ?ids col (?keys ! m)) else None)"
    if m: "m < length ?keys" for m
  proof -
    have "?h col' ! m = last_valid (take_rows col' (group_positions ?ids (?keys ! m)))"
      using m by (simp add: group_positions_map_Some del: map_map)
    also have "\<dots> = last_valid (cumsum (take_rows col (group_positions ?ids (?keys ! m))))"
      by (simp only: group_column_is_cumsum [OF vals'])
    also have "\<dots> = (if \<exists>i<length ?ids. ?ids ! i = ?keys ! m \<and> col ! i \<noteq> None
                      then Some (full_sum ?ids col (?keys ! m)) else None)"
      by (rule last_valid_cumsum_group)
    also have "(\<exists>i<length ?ids. ?ids ! i = ?keys ! m \<and> col ! i \<noteq> None)
                 \<longleftrightarrow> (\<exists>i<length (rows data). id_traj (rows data ! i) = ?keys ! m \<and> col ! i \<noteq> None)"
      by auto
    finally show ?thesis .
  qed
  have lt: "length (?h col') = length ?keys" by simp
  from cr iF c1 c2 vals iG cG lt t show ?thesis by blast
qed

text \<open>The scores 1, 2, 4 of trajectory 0 become 1, 3, 7, and its terminal value is 7.\<close>

theorem create_cumsum_data_running_sum_witness:
  "distinct (map idx (rows demo_scores)) \<and> wf_table demo_scores \<and> rows demo_scores \<noteq> []
   \<and> is_score (Score 0)
   \<and> map_of (extra demo_scores) (Score 0) = Some [Some 1, Some 10, Some 2, Some 4]
   \<and> create_cumsum_data demo_scores
       = Inr \<lparr>index = [0, 1, 2, 3], columns = [(Score 0, [Some 1, Some 10, Some 3, Some 7])]\<rparr>
   \<and> running_sum (map id_traj (rows demo_scores)) [Some 1, Some 10, Some 2, Some 4] 3 = 7
   \<and> full_sum (map id_traj (rows demo_scores)) [Some 1, Some 10, Some 2, Some 4] 0 = 7
   \<and> map_of (columns (groupby_last (map Some (map id_traj (rows demo_scores)))
        \<lparr>index = [0, 1, 2, 3], columns = [(Score 0, [Some 1, Some 10, Some 3, Some 7])]\<rparr>))
        (Score 0) = Some [Some 7, Some 10]
   \<and> (\<exists>F. create_cumsum_data demo_scores = Inr F \<and> index F = map idx (rows demo_scores))"
proof -
  have uniq: "distinct (map idx (rows demo_scores))" by (simp add: demo_scores_def)
  have wf: "wf_table demo_scores" by (simp add: demo_scores_def wf_table_def)
  have ne: "rows demo_scores \<noteq> []" by (simp add: demo_scores_def)
  have sc: "is_score (Score 0)" by simp
  have col: "map_of (extra demo_scores) (Score 0) = Some [Some 1, Some 10, Some 2, Some 4]"
    by (simp add: demo_scores_def)
  have run: "create_cumsum_data demo_scores
       = Inr \<lparr>index = [0, 1, 2, 3], columns = [(Score 0, [Some 1, Some 10, Some 3, Some 7])]\<rparr>"
    by (simp add: create_cumsum_data_def cumsum_group_def Let_def demo_scores_def
        group_keys_def group_positions_def take_rows_def cumsum_def pd_concat_def
        column_or_nan_def reindex_def take_cell_def upt_rec)
  have rs: "running_sum (map id_traj (rows demo_scores)) [Some 1, Some 10, Some 2, Some 4] 3 = 7"
    by (simp add: running_sum_def demo_scores_def present_def upt_rec)
  have fs: "full_sum (map id_traj (rows demo_scores)) [Some 1, Some 10, Some 2, Some 4] 0 = 7"
    by (simp add: full_sum_def demo_scores_def present_def upt_rec)
  have gl: "map_of (columns (groupby_last (map Some (map id_traj (rows demo_scores)))
        \<lparr>index = [0, 1, 2, 3], columns = [(Score 0, [Some 1, Some 10, Some 3, Some 7])]\<rparr>))
        (Score 0) = Some [Some 7, Some 10]"
    by (simp add: groupby_last_def Let_def demo_scores_def present_ids_def group_keys_def
        group_positions_def take_rows_def upt_rec)
  from create_cumsum_data_running_sum [OF uniq wf ne sc col]
  have "\<exists>F. create_cumsum_data demo_scores = Inr F \<and> index F = map idx (rows demo_scores)"
    by blast
  with uniq wf ne sc col run rs fs gl show ?thesis by blast
qed

section \<open>The dictionary of ROC records\<close>




















section \<open>How the trajectory identifiers meet the labels\<close>








end
